theory Spec2Isabelle
  imports Main "HOL-Library.Word" "HOL-Library.Monad_Syntax"
begin

unbundle bit_operations_syntax

section \<open>The picture processing unit of the Game Boy core (Src/Cores/GB/PPU.cpp)\<close>

text \<open>
  The theory embeds the member functions of \<^verbatim>\<open>GB::PPU\<close> as HOL functions over a record
  of the object's fields. A mutating member function takes the record and returns the
  updated one. The two calls of \<^verbatim>\<open>bus.request_interrupt\<close> are recorded as a list of
  requests, in the order in which they are made. An index outside a fixed-size array is
  undefined behaviour in C++: wherever an index depends on the state, the model makes the
  access explicit and returns \<open>None\<close> out of range, so a result \<open>Some\<close> is a run in
  which every access was in range.
\<close>

type_synonym u8 = "8 word"
type_synonym u32 = "32 word"

subsection \<open>Declarations of PPU.hpp and Bus.hpp\<close>

text \<open>
  Modelled from the spec: the headers PPU.hpp and Bus.hpp are not part of the sources at
  hand. The enumerators, array sizes and field types below follow the spec's data model
  (VRAM of 8 KiB, OAM of 160 bytes, a 160 x 144 screen with 4 bytes per pixel, at most 10
  objects per line, the low 2 status bits as the mode field) and the way PPU.cpp uses
  them: \<^verbatim>\<open>stat_any\<close> compares the mode with 0, 1 and 2 for HBlank, VBlank and OAM search,
  and \<^verbatim>\<open>set_post_boot_state\<close> stores 0x91 as a control value that enables the display.
  The bit positions are those of the hardware registers LCDC, STAT and of the OAM
  attribute byte. The values of the render-layer mask bits are not given anywhere; they
  are taken to be three distinct bits.
\<close>

datatype PPUState = HBlank | VBlank | OAMSearch | DrawScanline

fun mode_num :: "PPUState \<Rightarrow> u8" where
  "mode_num HBlank = 0"
| "mode_num VBlank = 1"
| "mode_num OAMSearch = 2"
| "mode_num DrawScanline = 3"

datatype interrupt = INT_VBLANK_BIT | INT_LCD_STAT_BIT

definition BGEnable :: u8 where "BGEnable = 0x01"
definition SpriteEnable :: u8 where "SpriteEnable = 0x02"
definition SpriteSize :: u8 where "SpriteSize = 0x04"
definition BGTileMap :: u8 where "BGTileMap = 0x08"
definition BGWindowTileData :: u8 where "BGWindowTileData = 0x10"
definition WindowEnable :: u8 where "WindowEnable = 0x20"
definition WindowTileMap :: u8 where "WindowTileMap = 0x40"
definition DisplayEnable :: u8 where "DisplayEnable = 0x80"

definition ModeFlag :: u8 where "ModeFlag = 0x03"
definition LYCandLYCompareType :: u8 where "LYCandLYCompareType = 0x04"
definition EnableHBlankInt :: u8 where "EnableHBlankInt = 0x08"
definition EnableVBlankInt :: u8 where "EnableVBlankInt = 0x10"
definition EnableOAMInt :: u8 where "EnableOAMInt = 0x20"
definition EnableLYCandLYInt :: u8 where "EnableLYCandLYInt = 0x40"

definition Palette :: u8 where "Palette = 0x10"
definition FlipX :: u8 where "FlipX = 0x20"
definition FlipY :: u8 where "FlipY = 0x40"
definition Priority :: u8 where "Priority = 0x80"

definition Background :: u8 where "Background = 0x01"
definition Window :: u8 where "Window = 0x02"
definition Objects :: u8 where "Objects = 0x04"

definition LCD_WIDTH :: nat where "LCD_WIDTH = 160"
definition LCD_HEIGHT :: nat where "LCD_HEIGHT = 144"
definition COLOR_DEPTH :: nat where "COLOR_DEPTH = 4"

definition VRAM_SIZE :: nat where "VRAM_SIZE = 0x2000"
definition OAM_SIZE :: nat where "OAM_SIZE = 160"
definition MAX_OBJECTS :: nat where "MAX_OBJECTS = 10"

text \<open>
  An OAM entry, four bytes in the order y, x, tile, attributes. The fields carry the
  prefix \<open>obj_\<close>, since \<open>x\<close> and \<open>y\<close> as constants would capture the variables of every
  statement below.
\<close>

datatype Object = Object (obj_y: u8) (obj_x: u8) (obj_tile: u8) (obj_attributes: u8)

text \<open>One entry of \<^verbatim>\<open>color_table\<close>: the four bytes of a pixel.\<close>

type_synonym color = "u8 \<times> u8 \<times> u8 \<times> u8"

record ppu =
  status :: u8
  lcd_control :: u8
  background_palette :: u8
  object_palette_0 :: u8
  object_palette_1 :: u8
  screen_scroll_y :: u8
  screen_scroll_x :: u8
  window_y :: u8
  window_x :: u8
  line_y_compare :: u8
  render_flags :: u8
  vram :: "nat \<Rightarrow> u8"
  oam :: "nat \<Rightarrow> u8"
  framebuffer :: "nat \<Rightarrow> u8"
  framebuffer_complete :: "nat \<Rightarrow> u8"
  bg_color_table :: "nat \<Rightarrow> u8"
  objects_on_scanline :: "nat \<Rightarrow> Object"
  mode :: PPUState
  window_draw_flag :: bool
  previously_disabled :: bool
  num_obj_on_scanline :: nat
  cycles :: u32
  line_y :: u8
  window_line_y :: u8

subsection \<open>Array accesses\<close>

text \<open>
  An array is a function from indices to elements together with its fixed size; the size
  is part of the C++ type, so it is a constant of each access. A read or write at an
  index that is not below the size has no defined behaviour and is \<open>None\<close>.
\<close>

definition rd :: "nat \<Rightarrow> (nat \<Rightarrow> 'a) \<Rightarrow> nat \<Rightarrow> 'a option" where
  "rd n a i = (if i < n then Some (a i) else None)"

definition wr :: "nat \<Rightarrow> (nat \<Rightarrow> 'a) \<Rightarrow> nat \<Rightarrow> 'a \<Rightarrow> (nat \<Rightarrow> 'a) option" where
  "wr n a i v = (if i < n then Some (a(i := v)) else None)"

text \<open>
  \<^verbatim>\<open>std::copy(color.begin(), color.end(), fb_pixel.begin())\<close> on the span that starts at
  \<^verbatim>\<open>&framebuffer[p * COLOR_DEPTH]\<close>: the four bytes of pixel \<open>p\<close>.
\<close>

definition put_pixel :: "(nat \<Rightarrow> u8) \<Rightarrow> nat \<Rightarrow> color \<Rightarrow> (nat \<Rightarrow> u8) option" where
  "put_pixel fb p c =
     (if p * COLOR_DEPTH < LCD_WIDTH * LCD_HEIGHT * COLOR_DEPTH
      then (case c of (c0, c1, c2, c3) \<Rightarrow>
              Some (fb(p * COLOR_DEPTH := c0, p * COLOR_DEPTH + 1 := c1,
                       p * COLOR_DEPTH + 2 := c2, p * COLOR_DEPTH + 3 := c3)))
      else None)"

definition get_pixel :: "(nat \<Rightarrow> u8) \<Rightarrow> nat \<Rightarrow> color" where
  "get_pixel fb p =
     (fb (p * COLOR_DEPTH), fb (p * COLOR_DEPTH + 1), fb (p * COLOR_DEPTH + 2),
      fb (p * COLOR_DEPTH + 3))"

text \<open>A C \<^verbatim>\<open>for (i = lo; i < hi; ++i)\<close> loop whose body may fail.\<close>

function for_loop :: "nat \<Rightarrow> nat \<Rightarrow> (nat \<Rightarrow> 's \<Rightarrow> 's option) \<Rightarrow> 's \<Rightarrow> 's option" where
  "for_loop i hi body s =
     (if i < hi
      then (case body i s of None \<Rightarrow> None | Some s' \<Rightarrow> for_loop (Suc i) hi body s')
      else Some s)"
  by pat_completeness auto
termination
  by (relation "measure (\<lambda>(i, hi, body, s). hi - i)") auto

declare for_loop.simps [simp del]

subsection \<open>reset and set\_post\_boot\_state\<close>

definition reset :: "bool \<Rightarrow> ppu \<Rightarrow> ppu" where
  "reset hard_reset s =
     (let s1 = (if hard_reset
                then s\<lparr>status := 0, lcd_control := 0, background_palette := 0,
                        object_palette_0 := 0, object_palette_1 := 0,
                        screen_scroll_y := 0, screen_scroll_x := 0,
                        window_y := 0, window_x := 0, line_y_compare := 0,
                        vram := (\<lambda>_. 0), oam := (\<lambda>_. 0),
                        framebuffer := (\<lambda>_. 0), framebuffer_complete := (\<lambda>_. 0),
                        bg_color_table := (\<lambda>_. 0),
                        objects_on_scanline := (\<lambda>_. Object 0 0 0 0),
                        mode := HBlank\<rparr>
                else s)
      in s1\<lparr>window_draw_flag := False, num_obj_on_scanline := 0, cycles := 0,
             line_y := 0, window_line_y := 0\<rparr>)"

definition set_post_boot_state :: "ppu \<Rightarrow> ppu" where
  "set_post_boot_state s =
     s\<lparr>window_draw_flag := True, previously_disabled := False, cycles := 420,
       status := 1, lcd_control := 0x91\<rparr>"

subsection \<open>The status register\<close>

definition check_stat :: "u8 \<Rightarrow> ppu \<Rightarrow> bool" where
  "check_stat flags s = (status s AND flags \<noteq> 0)"

definition set_stat :: "u8 \<Rightarrow> bool \<Rightarrow> ppu \<Rightarrow> ppu" where
  "set_stat flags v s =
     (if v then s\<lparr>status := status s OR flags\<rparr>
      else s\<lparr>status := status s AND NOT flags\<rparr>)"

definition stat_any :: "ppu \<Rightarrow> bool" where
  "stat_any s =
     (if check_stat EnableLYCandLYInt s \<and> check_stat LYCandLYCompareType s then True
      else if check_stat EnableOAMInt s \<and> mode_num (mode s) = 2 then True
      else if check_stat EnableVBlankInt s \<and> mode_num (mode s) = 1 then True
      else if check_stat EnableHBlankInt s \<and> mode_num (mode s) = 0 then True
      else False)"

definition check_ly_lyc :: "bool \<Rightarrow> ppu \<Rightarrow> ppu \<times> interrupt list" where
  "check_ly_lyc allow_interrupts s =
     (let s1 = set_stat LYCandLYCompareType False s
      in if line_y s1 = line_y_compare s1
         then (let s2 = set_stat LYCandLYCompareType True s1
               in (s2, if check_stat EnableLYCandLYInt s2 \<and> allow_interrupts
                       then [INT_LCD_STAT_BIT] else []))
         else (s1, []))"

subsection \<open>The OAM scanner\<close>

text \<open>
  \<^verbatim>\<open>reinterpret_cast<const Object *>(&oam[i * 4])\<close>: the four bytes of entry \<open>i\<close>. The
  scan reads entries 0 to 39 only, which lie inside the 160 bytes of OAM.
\<close>

definition oam_object :: "(nat \<Rightarrow> u8) \<Rightarrow> nat \<Rightarrow> Object" where
  "oam_object a i = Object (a (i * 4)) (a (i * 4 + 1)) (a (i * 4 + 2)) (a (i * 4 + 3))"

text \<open>
  The eligibility test of the scan, in C's \<^verbatim>\<open>int\<close> arithmetic:
  \<^verbatim>\<open>corrected_y_position <= line_y && (corrected_y_position + height) > line_y\<close>.
\<close>

definition on_line :: "int \<Rightarrow> u8 \<Rightarrow> Object \<Rightarrow> bool" where
  "on_line height ly sprite =
     (let corrected_y_position = int (unat (obj_y sprite)) - 16
      in corrected_y_position \<le> int (unat ly) \<and> corrected_y_position + height > int (unat ly))"

text \<open>
  The scan loop with its counters \<open>i\<close> and \<open>tot\<close> (the source's \<^verbatim>\<open>total\<close>); \<open>tot\<close> is
  below 10 at every store into \<^verbatim>\<open>objects_on_scanline\<close>, because the loop breaks at 10.
\<close>

function scan_oam_loop :: "int \<Rightarrow> nat \<Rightarrow> nat \<Rightarrow> ppu \<Rightarrow> ppu" where
  "scan_oam_loop height i tot s =
     (if i < 40
      then (if tot = 10 then s
            else (let sprite = oam_object (oam s) i
                  in if on_line height (line_y s) sprite
                     then scan_oam_loop height (Suc i) (Suc tot)
                            (s\<lparr>objects_on_scanline := (objects_on_scanline s)(tot := sprite),
                               num_obj_on_scanline := num_obj_on_scanline s + 1\<rparr>)
                     else scan_oam_loop height (Suc i) tot s))
      else s)"
  by pat_completeness auto
termination
  by (relation "measure (\<lambda>(height, i, tot, s). 40 - i)") auto

declare scan_oam_loop.simps [simp del]

text \<open>
  \<^verbatim>\<open>std::stable_sort\<close> with a comparator \<open>lt\<close>: the sorted arrangement in which elements
  that \<open>lt\<close> does not order keep their relative order. Insertion from the right end puts
  an element before every element that is not smaller.
\<close>

fun insert_stable :: "('a \<Rightarrow> 'a \<Rightarrow> bool) \<Rightarrow> 'a \<Rightarrow> 'a list \<Rightarrow> 'a list" where
  "insert_stable lt a [] = [a]"
| "insert_stable lt a (b # bs) =
     (if lt b a then b # insert_stable lt a bs else a # b # bs)"

definition stable_sort :: "('a \<Rightarrow> 'a \<Rightarrow> bool) \<Rightarrow> 'a list \<Rightarrow> 'a list" where
  "stable_sort lt xs = foldr (insert_stable lt) xs []"

definition scan_oam :: "ppu \<Rightarrow> ppu" where
  "scan_oam s =
     (let height = (if lcd_control s AND SpriteSize \<noteq> 0 then 16 else 8);
          s1 = s\<lparr>num_obj_on_scanline := 0,
                 objects_on_scanline := (\<lambda>_. Object 0 0 0 0)\<rparr>;
          s2 = scan_oam_loop height 0 0 s1;
          n = num_obj_on_scanline s2;
          sorted_objs = stable_sort (\<lambda>left right. obj_x left < obj_x right)
                     (map (objects_on_scanline s2) [0..<n])
      in s2\<lparr>objects_on_scanline :=
              (\<lambda>k. if k < n then sorted_objs ! k else objects_on_scanline s2 k)\<rparr>)"

subsection \<open>The scanline compositor\<close>

text \<open>
  The address of a tile's row in VRAM, a \<^verbatim>\<open>uint16_t\<close>: the sum is computed in \<^verbatim>\<open>int\<close>
  and then truncated to 16 bits. With the tile data at 0x8800 the tile id is read as a
  signed byte, relative to 0x9000.
\<close>

definition tile_row_index :: "int \<Rightarrow> u8 \<Rightarrow> u8 \<Rightarrow> nat" where
  "tile_row_index tile_data_address tile_id y_offset =
     (if tile_data_address = 0x8800
      then nat ((((tile_data_address + 0x800) AND 0x1FFF) + sint tile_id * 16
                 + int (unat (y_offset AND 7)) * 2) mod 65536)
      else nat (((tile_data_address AND 0x1FFF) + int (unat tile_id) * 16
                 + int (unat (y_offset AND 7)) * 2) mod 65536))"

text \<open>The 2-bit colour index of one pixel, from the two bit planes of a tile row.\<close>

definition pixel_of :: "u8 \<Rightarrow> u8 \<Rightarrow> nat \<Rightarrow> u8" where
  "pixel_of low_byte high_byte bit_n =
     (let low_bit = drop_bit bit_n low_byte AND 1;
          high_bit = drop_bit bit_n high_byte AND 1
      in push_bit 1 high_bit OR low_bit)"

text \<open>\<^verbatim>\<open>color_table[(palette >> (int)(2 * pixel)) & 3]\<close>; the table is a parameter \<open>ct\<close>.\<close>

definition shade :: "(nat \<Rightarrow> color) \<Rightarrow> u8 \<Rightarrow> u8 \<Rightarrow> color" where
  "shade ct palette pixel = ct (unat (drop_bit (2 * unat pixel) palette AND 3))"

definition bg_pixel :: "(nat \<Rightarrow> color) \<Rightarrow> int \<Rightarrow> int \<Rightarrow> nat \<Rightarrow> ppu \<Rightarrow> ppu option" where
  "bg_pixel ct tile_map_address tile_data_address i s =
     (let x_offset = screen_scroll_x s + of_nat i;
          y_offset = screen_scroll_y s + line_y s
      in do {
        tile_id \<leftarrow> rd VRAM_SIZE (vram s)
          (nat ((tile_map_address AND 0x1FFF) + ((int (unat x_offset) div 8) AND 31)
                + ((int (unat y_offset) div 8) AND 31) * 32));
        let tile_index = tile_row_index tile_data_address tile_id y_offset;
        low_byte \<leftarrow> rd VRAM_SIZE (vram s) tile_index;
        high_byte \<leftarrow> rd VRAM_SIZE (vram s) (tile_index + 1);
        let bit_n = 7 - unat (x_offset AND 7);
        let pixel = pixel_of low_byte high_byte bit_n;
        let framebuffer_line_x = i;
        let framebuffer_line_y = unat (line_y s) * LCD_WIDTH;
        let disabled = (lcd_control s AND BGEnable = 0 \<or> render_flags s AND Background = 0);
        let color = (if disabled then ct (unat (background_palette s AND 3))
                     else shade ct (background_palette s) pixel);
        bgt \<leftarrow> wr (LCD_WIDTH * LCD_HEIGHT) (bg_color_table s) (framebuffer_line_y + i)
                 (if disabled then 0 else pixel);
        fb \<leftarrow> put_pixel (framebuffer s) (framebuffer_line_y + framebuffer_line_x) color;
        Some (s\<lparr>bg_color_table := bgt, framebuffer := fb\<rparr>)
      })"

definition render_bg_layer :: "(nat \<Rightarrow> color) \<Rightarrow> ppu \<Rightarrow> ppu option" where
  "render_bg_layer ct s =
     (let tile_map_address = (if lcd_control s AND BGTileMap \<noteq> 0 then 0x9c00 else 0x9800);
          tile_data_address = (if lcd_control s AND BGWindowTileData \<noteq> 0 then 0x8000 else 0x8800)
      in for_loop 0 160 (bg_pixel ct tile_map_address tile_data_address) s)"

text \<open>
  One iteration of the window loop. The pair carries \<^verbatim>\<open>advance_by\<close> with the state. The
  comparison \<^verbatim>\<open>i >= (window_x - 7)\<close> is made in \<^verbatim>\<open>int\<close>; the difference stored in
  \<^verbatim>\<open>x_offset\<close> is truncated to 8 bits.
\<close>

definition window_pixel ::
  "(nat \<Rightarrow> color) \<Rightarrow> int \<Rightarrow> int \<Rightarrow> nat \<Rightarrow> ppu \<times> u8 \<Rightarrow> (ppu \<times> u8) option" where
  "window_pixel ct tile_map_address tile_data_address i sa =
     (case sa of (s, advance_by) \<Rightarrow>
        if line_y s \<ge> window_y s \<and> int i \<ge> int (unat (window_x s)) - 7
        then (let x_offset = (of_int (int i - (int (unat (window_x s)) - 7)) :: u8);
                  y_offset = window_line_y s
              in do {
                tile_id \<leftarrow> rd VRAM_SIZE (vram s)
                  (nat ((tile_map_address AND 0x1FFF) + ((int (unat x_offset) div 8) AND 31)
                        + ((int (unat y_offset) div 8) AND 31) * 32));
                let tile_index = tile_row_index tile_data_address tile_id y_offset;
                low_byte \<leftarrow> rd VRAM_SIZE (vram s) tile_index;
                high_byte \<leftarrow> rd VRAM_SIZE (vram s) (tile_index + 1);
                let bit_n = 7 - unat (x_offset AND 7);
                let pixel = pixel_of low_byte high_byte bit_n;
                let framebuffer_line_x = i;
                let framebuffer_line_y = unat (line_y s) * LCD_WIDTH;
                bgt \<leftarrow> wr (LCD_WIDTH * LCD_HEIGHT) (bg_color_table s)
                         (framebuffer_line_y + framebuffer_line_x) pixel;
                fb \<leftarrow> put_pixel (framebuffer s) (framebuffer_line_y + framebuffer_line_x)
                        (shade ct (background_palette s) pixel);
                Some (s\<lparr>bg_color_table := bgt, framebuffer := fb\<rparr>, 1)
              })
        else Some (s, advance_by))"

definition render_window_layer :: "(nat \<Rightarrow> color) \<Rightarrow> ppu \<Rightarrow> ppu option" where
  "render_window_layer ct s =
     (let tile_map_address = (if lcd_control s AND WindowTileMap \<noteq> 0 then 0x9c00 else 0x9800);
          tile_data_address = (if lcd_control s AND BGWindowTileData \<noteq> 0 then 0x8000 else 0x8800)
      in do {
        (s1, advance_by) \<leftarrow>
          (if lcd_control s AND WindowEnable \<noteq> 0 \<and> window_draw_flag s
              \<and> render_flags s AND Window \<noteq> 0
           then for_loop 0 LCD_WIDTH (window_pixel ct tile_map_address tile_data_address) (s, 0)
           else Some (s, 0));
        Some (s1\<lparr>window_line_y := window_line_y s1 + advance_by\<rparr>)
      })"

text \<open>C's \<^verbatim>\<open>%\<close> on \<^verbatim>\<open>int\<close>: the remainder of the division that truncates towards zero.\<close>

definition c_rem :: "int \<Rightarrow> int \<Rightarrow> int" where
  "c_rem a b = sgn a * (\<bar>a\<bar> mod \<bar>b\<bar>)"

text \<open>
  One iteration of the loop over the 8 pixels of an object's row. The screen column
  \<^verbatim>\<open>framebuffer_line_x\<close> is the \<^verbatim>\<open>int\<close> sum \<^verbatim>\<open>adjusted_x + x\<close> converted to
  \<^verbatim>\<open>size_t\<close>: a negative sum becomes a value far above 160, so the column is on the screen
  exactly when the sum lies in 0 to 159.
\<close>

definition sprite_pixel ::
  "(nat \<Rightarrow> color) \<Rightarrow> Object \<Rightarrow> u8 \<Rightarrow> nat \<Rightarrow> int \<Rightarrow> nat \<Rightarrow> ppu \<Rightarrow> ppu option" where
  "sprite_pixel ct object palette tile_index adjusted_x x s =
     (let framebuffer_line_y = unat (line_y s) * LCD_WIDTH
      in if 0 \<le> adjusted_x + int x \<and> adjusted_x + int x < 160
         then (let framebuffer_line_x = nat (adjusted_x + int x)
               in do {
                 low_byte \<leftarrow> rd VRAM_SIZE (vram s) tile_index;
                 high_byte \<leftarrow> rd VRAM_SIZE (vram s) (tile_index + 1);
                 let bit_n = (if obj_attributes object AND FlipX \<noteq> 0 then x AND 7
                              else 7 - (x AND 7));
                 let pixel = pixel_of low_byte high_byte bit_n;
                 if pixel = 0 then Some s
                 else if obj_attributes object AND Priority = 0
                 then do {
                   fb \<leftarrow> put_pixel (framebuffer s) (framebuffer_line_y + framebuffer_line_x)
                           (shade ct palette pixel);
                   Some (s\<lparr>framebuffer := fb\<rparr>)
                 }
                 else do {
                   b \<leftarrow> rd (LCD_WIDTH * LCD_HEIGHT) (bg_color_table s)
                          (framebuffer_line_y + framebuffer_line_x);
                   if b = 0
                   then do {
                     fb \<leftarrow> put_pixel (framebuffer s) (framebuffer_line_y + framebuffer_line_x)
                             (shade ct palette pixel);
                     Some (s\<lparr>framebuffer := fb\<rparr>)
                   }
                   else Some s
                 }
               })
         else Some s)"

text \<open>
  One iteration of the loop over the selected objects. \<^verbatim>\<open>object\<close> is a reference into
  \<^verbatim>\<open>objects_on_scanline\<close>, so clearing the low bit of the tile number changes the array.
\<close>

definition sprite_object :: "(nat \<Rightarrow> color) \<Rightarrow> int \<Rightarrow> nat \<Rightarrow> ppu \<Rightarrow> ppu option" where
  "sprite_object ct height i s =
     do {
       let k = (num_obj_on_scanline s - 1) - i;
       object0 \<leftarrow> rd MAX_OBJECTS (objects_on_scanline s) k;
       let palette = (if obj_attributes object0 AND Palette \<noteq> 0 then object_palette_1 s
                      else object_palette_0 s);
       let object = (if height = 16
                     then Object (obj_y object0) (obj_x object0) (obj_tile object0 AND NOT 1)
                            (obj_attributes object0)
                     else object0);
       let s1 = s\<lparr>objects_on_scanline := (objects_on_scanline s)(k := object)\<rparr>;
       let oy = int (unat (obj_y object)) - 16;
       let ly = int (unat (line_y s1));
       let tile_index =
             (if obj_attributes object AND FlipY \<noteq> 0
              then nat (((0x8000 AND 0x1FFF) + int (unat (obj_tile object)) * 16
                         + (height - (ly - oy) - 1) * 2) mod 65536)
              else nat (((0x8000 AND 0x1FFF) + int (unat (obj_tile object)) * 16
                         + c_rem (ly - oy) height * 2) mod 65536));
       let adjusted_x = int (unat (obj_x object)) - 8;
       for_loop 0 8 (sprite_pixel ct object palette tile_index adjusted_x) s1
     }"

definition render_sprite_layer :: "(nat \<Rightarrow> color) \<Rightarrow> ppu \<Rightarrow> ppu option" where
  "render_sprite_layer ct s =
     (let height = (if lcd_control s AND SpriteSize \<noteq> 0 then 16 else 8)
      in if lcd_control s AND SpriteEnable \<noteq> 0 \<and> render_flags s AND Objects \<noteq> 0
         then for_loop 0 (num_obj_on_scanline s) (sprite_object ct height) s
         else Some s)"

definition render_scanline :: "(nat \<Rightarrow> color) \<Rightarrow> ppu \<Rightarrow> ppu option" where
  "render_scanline ct s =
     do {
       s1 \<leftarrow> render_bg_layer ct s;
       s2 \<leftarrow> (if render_flags s1 AND Window \<noteq> 0 then render_window_layer ct s1 else Some s1);
       if render_flags s2 AND Objects \<noteq> 0 then render_sprite_layer ct s2 else Some s2
     }"

subsection \<open>The mode state machine\<close>

text \<open>
  The \<^verbatim>\<open>switch (mode)\<close> of \<^verbatim>\<open>step\<close>, with the requests it sends to the bus. The cycle
  counter is unsigned, as the parameter it accumulates.
\<close>

definition switch_mode ::
  "(nat \<Rightarrow> color) \<Rightarrow> bool \<Rightarrow> ppu \<Rightarrow> (ppu \<times> interrupt list) option" where
  "switch_mode ct allow_interrupt s =
     (case mode s of
        HBlank \<Rightarrow>
          if cycles s \<ge> 204
          then (let s1 = s\<lparr>cycles := cycles s - 204, line_y := line_y s + 1\<rparr>
                in if line_y s1 = 144
                   then Some (s1\<lparr>mode := VBlank\<rparr>,
                              INT_VBLANK_BIT #
                              (if check_stat EnableVBlankInt s1 \<and> allow_interrupt
                               then [INT_LCD_STAT_BIT] else []))
                   else Some (s1\<lparr>mode := OAMSearch\<rparr>,
                              if check_stat EnableOAMInt s1 \<and> allow_interrupt
                              then [INT_LCD_STAT_BIT] else []))
          else Some (s, [])
      | VBlank \<Rightarrow>
          if cycles s \<ge> 456
          then (let s1 = s\<lparr>line_y := line_y s + 1, cycles := cycles s - 456\<rparr>
                in if line_y s1 > 153
                   then Some (s1\<lparr>framebuffer_complete := framebuffer s1, mode := OAMSearch,
                                 line_y := 0, window_line_y := 0, window_draw_flag := False\<rparr>,
                              if check_stat EnableOAMInt s1 \<and> allow_interrupt
                              then [INT_LCD_STAT_BIT] else [])
                   else Some (s1, []))
          else Some (s, [])
      | OAMSearch \<Rightarrow>
          if cycles s \<ge> 80
          then (let s1 = scan_oam s
                in Some (s1\<lparr>cycles := cycles s1 - 80, mode := DrawScanline\<rparr>, []))
          else Some (s, [])
      | DrawScanline \<Rightarrow>
          if cycles s \<ge> 172
          then (let s1 = s\<lparr>cycles := cycles s - 172, mode := HBlank\<rparr>;
                    reqs = (if check_stat EnableHBlankInt s1 \<and> allow_interrupt
                            then [INT_LCD_STAT_BIT] else [])
                in do { s2 \<leftarrow> render_scanline ct s1; Some (s2, reqs) })
          else Some (s, []))"

definition step :: "(nat \<Rightarrow> color) \<Rightarrow> u32 \<Rightarrow> ppu \<Rightarrow> (ppu \<times> interrupt list) option" where
  "step ct accumulated_cycles s =
     (if lcd_control s AND DisplayEnable = 0
      then (let s1 = set_stat ModeFlag False (s\<lparr>mode := HBlank\<rparr>);
                s2 = s1\<lparr>status := status s1 OR (mode_num (mode s1) AND 0x03)\<rparr>
            in Some (s2\<lparr>previously_disabled := True\<rparr>, []))
      else (let s1 = (if previously_disabled s
                      then (reset False s)\<lparr>previously_disabled := False\<rparr> else s);
                s2 = s1\<lparr>cycles := cycles s1 + accumulated_cycles\<rparr>;
                allow_interrupt = (if stat_any s2 then False else True)
            in do {
              (s3, reqs) \<leftarrow> switch_mode ct allow_interrupt s2;
              let (s4, reqs') = check_ly_lyc allow_interrupt s3;
              let s5 = (if window_y s4 = line_y s4 then s4\<lparr>window_draw_flag := True\<rparr> else s4);
              let s6 = set_stat ModeFlag False s5;
              Some (s6\<lparr>status := status s6 OR (mode_num (mode s6) AND 0x03)\<rparr>, reqs @ reqs')
            }))"

section \<open>Notions used in the statements and proofs\<close>

text \<open>
  What the compositor leaves alone: every field but the working framebuffer, the
  background shadow table, the window's line counter and the selected objects.
\<close>

definition render_frame :: "ppu \<Rightarrow> ppu \<Rightarrow> bool" where
  "render_frame s s' =
     (status s' = status s \<and> lcd_control s' = lcd_control s
      \<and> background_palette s' = background_palette s
      \<and> object_palette_0 s' = object_palette_0 s \<and> object_palette_1 s' = object_palette_1 s
      \<and> screen_scroll_y s' = screen_scroll_y s \<and> screen_scroll_x s' = screen_scroll_x s
      \<and> window_y s' = window_y s \<and> window_x s' = window_x s
      \<and> line_y_compare s' = line_y_compare s \<and> render_flags s' = render_flags s
      \<and> vram s' = vram s \<and> oam s' = oam s
      \<and> framebuffer_complete s' = framebuffer_complete s
      \<and> mode s' = mode s \<and> window_draw_flag s' = window_draw_flag s
      \<and> previously_disabled s' = previously_disabled s
      \<and> num_obj_on_scanline s' = num_obj_on_scanline s
      \<and> cycles s' = cycles s \<and> line_y s' = line_y s)"

text \<open>
  The two halves of \<^verbatim>\<open>step\<close> around its \<^verbatim>\<open>switch\<close>, for a display that is enabled:
  \<open>enter\<close> is the state the switch starts from (the soft reset after a disabled
  period, then the cycles added), \<open>leave\<close> is what follows the switch (the LY = LYC
  comparator, the window latch and the mode bits of the status register).
\<close>

definition enter :: "u32 \<Rightarrow> ppu \<Rightarrow> ppu" where
  "enter n s =
     (let s1 = (if previously_disabled s
                then (reset False s)\<lparr>previously_disabled := False\<rparr> else s)
      in s1\<lparr>cycles := cycles s1 + n\<rparr>)"

definition leave :: "bool \<Rightarrow> ppu \<Rightarrow> ppu \<times> interrupt list" where
  "leave allow_interrupt s3 =
     (let (s4, reqs') = check_ly_lyc allow_interrupt s3;
          s5 = (if window_y s4 = line_y s4 then s4\<lparr>window_draw_flag := True\<rparr> else s4);
          s6 = set_stat ModeFlag False s5
      in (s6\<lparr>status := status s6 OR (mode_num (mode s6) AND 0x03)\<rparr>, reqs'))"

text \<open>
  States and a colour table for the concrete instances: the object after a hard reset
  with every layer of the mask set, the state \<^verbatim>\<open>set_post_boot_state\<close> leaves behind,
  and four shades of grey.
\<close>

definition power_on :: ppu where
  "power_on = \<lparr>status = 0, lcd_control = 0, background_palette = 0,
     object_palette_0 = 0, object_palette_1 = 0, screen_scroll_y = 0, screen_scroll_x = 0,
     window_y = 0, window_x = 0, line_y_compare = 0, render_flags = 7,
     vram = (\<lambda>_. 0), oam = (\<lambda>_. 0), framebuffer = (\<lambda>_. 0),
     framebuffer_complete = (\<lambda>_. 0), bg_color_table = (\<lambda>_. 0),
     objects_on_scanline = (\<lambda>_. Object 0 0 0 0), mode = HBlank,
     window_draw_flag = False, previously_disabled = False, num_obj_on_scanline = 0,
     cycles = 0, line_y = 0, window_line_y = 0\<rparr>"

definition post_boot :: ppu where
  "post_boot = set_post_boot_state (reset True power_on)"

definition grey :: "nat \<Rightarrow> color" where
  "grey k = (of_nat (85 * (3 - k)), of_nat (85 * (3 - k)), of_nat (85 * (3 - k)), 255)"

text \<open>
  What the scan loop still selects when it stands at entry \<open>i\<close> with \<open>t\<close> objects
  stored: the entries from \<open>i\<close> on that lie on the line, in index order, cut off
  where the total reaches 10.
\<close>

definition selected :: "int \<Rightarrow> nat \<Rightarrow> nat \<Rightarrow> ppu \<Rightarrow> Object list" where
  "selected h i t s =
     take (10 - t) (filter (on_line h (line_y s)) (map (oam_object (oam s)) [i..<40]))"

text \<open>
  The configuration: VRAM, OAM and the registers that parameterise scanning and
  compositing. The type of \<open>config\<close> is the tuple of these twelve fields.
\<close>

definition config where
  "config s = (lcd_control s, screen_scroll_x s, screen_scroll_y s, window_x s, window_y s,
     background_palette s, object_palette_0 s, object_palette_1 s, line_y_compare s,
     render_flags s, vram s, oam s)"

text \<open>
  The timing part of the switch, read off the four cases: the cycle budget of a mode,
  whether it is used up, and the mode and line that follow.
\<close>

fun budget :: "PPUState \<Rightarrow> u32" where
  "budget HBlank = 204"
| "budget VBlank = 456"
| "budget OAMSearch = 80"
| "budget DrawScanline = 172"

definition due :: "ppu \<Rightarrow> bool" where
  "due s = (cycles s \<ge> budget (mode s))"

fun advance_ml :: "PPUState \<Rightarrow> u8 \<Rightarrow> PPUState \<times> u8" where
  "advance_ml HBlank ly = (if ly + 1 = 144 then (VBlank, ly + 1) else (OAMSearch, ly + 1))"
| "advance_ml VBlank ly = (if ly + 1 > 153 then (OAMSearch, 0) else (VBlank, ly + 1))"
| "advance_ml OAMSearch ly = (DrawScanline, ly)"
| "advance_ml DrawScanline ly = (HBlank, ly)"

text \<open>
  The status register after the tail of \<^verbatim>\<open>step\<close>, and the requests the switch sends.
\<close>

definition leave_status :: "ppu \<Rightarrow> u8" where
  "leave_status s =
     (((if line_y s = line_y_compare s
        then (status s AND NOT LYCandLYCompareType) OR LYCandLYCompareType
        else status s AND NOT LYCandLYCompareType) AND NOT ModeFlag)
      OR (mode_num (mode s) AND 0x03))"

definition switch_reqs :: "bool \<Rightarrow> ppu \<Rightarrow> interrupt list" where
  "switch_reqs a s =
     (if due s
      then (case mode s of
              HBlank \<Rightarrow>
                (if line_y s + 1 = 144
                 then INT_VBLANK_BIT #
                      (if check_stat EnableVBlankInt s \<and> a then [INT_LCD_STAT_BIT] else [])
                 else (if check_stat EnableOAMInt s \<and> a then [INT_LCD_STAT_BIT] else []))
            | VBlank \<Rightarrow>
                (if line_y s + 1 > 153 \<and> check_stat EnableOAMInt s \<and> a
                 then [INT_LCD_STAT_BIT] else [])
            | OAMSearch \<Rightarrow> []
            | DrawScanline \<Rightarrow>
                (if check_stat EnableHBlankInt s \<and> a then [INT_LCD_STAT_BIT] else []))
      else [])"

text \<open>
  Two more states for the instances: the last cycle of line 153, and the first call
  after the display was enabled again in the middle of a frame.
\<close>

definition last_vblank_line :: ppu where
  "last_vblank_line = post_boot\<lparr>mode := VBlank, line_y := 153, cycles := 455\<rparr>"

definition reenabled :: ppu where
  "reenabled = post_boot\<lparr>mode := HBlank, line_y := 77, cycles := 100,
                           previously_disabled := True\<rparr>"

text \<open>
  For the scan: after boot, all 40 objects placed on screen row 0, the object with index
  \<open>i\<close> at X position \<open>50 - i\<close>.
\<close>

definition crowded_line :: ppu where
  "crowded_line =
     post_boot\<lparr>oam := (\<lambda>i. if i mod 4 = 0 then 16
                          else if i mod 4 = 1 then of_nat (50 - i div 4) else 0)\<rparr>"

text \<open>
  A sequence of calls of \<^verbatim>\<open>step\<close>, one for each cycle count of the list: the state
  before each call, the state after it and the requests it sent; \<open>None\<close> if one of
  the calls has no defined result. Then the notions of the statements about sequences:
  the lines that go with a mode, one arrow of the mode cycle, a PPU that is running
  (display enabled, no soft reset pending, mode and line consistent), and the state a
  sequence ends in.
\<close>

fun trace :: "(nat \<Rightarrow> color) \<Rightarrow> u32 list \<Rightarrow> ppu \<Rightarrow> (ppu \<times> ppu \<times> interrupt list) list option" where
  "trace ct [] s = Some []"
| "trace ct (n # ns) s =
     (case step ct n s of
        None \<Rightarrow> None
      | Some (s1, q) \<Rightarrow>
          (case trace ct ns s1 of None \<Rightarrow> None | Some tr \<Rightarrow> Some ((s, s1, q) # tr)))"

definition line_mode_ok :: "ppu \<Rightarrow> bool" where
  "line_mode_ok s =
     (if mode s = VBlank then 144 \<le> line_y s \<and> line_y s \<le> 153 else line_y s \<le> 143)"

fun cycle_arrow :: "PPUState \<times> u8 \<Rightarrow> PPUState \<times> u8 \<Rightarrow> bool" where
  "cycle_arrow (m, l) (m', l') =
     ((m = OAMSearch \<and> m' = DrawScanline \<and> l' = l)
      \<or> (m = DrawScanline \<and> m' = HBlank \<and> l' = l)
      \<or> (m = HBlank \<and> l \<le> 142 \<and> m' = OAMSearch \<and> l' = l + 1)
      \<or> (m = HBlank \<and> l = 143 \<and> m' = VBlank \<and> l' = 144)
      \<or> (m = VBlank \<and> 144 \<le> l \<and> l \<le> 152 \<and> m' = VBlank \<and> l' = l + 1)
      \<or> (m = VBlank \<and> l = 153 \<and> m' = OAMSearch \<and> l' = 0))"

definition last_visible_line :: ppu where
  "last_visible_line = post_boot\<lparr>line_y := 143, cycles := 203, status := 0x08\<rparr>"

definition running :: "ppu \<Rightarrow> bool" where
  "running s =
     (lcd_control s AND DisplayEnable \<noteq> 0 \<and> \<not> previously_disabled s \<and> line_mode_ok s)"

definition final_state :: "ppu \<Rightarrow> (ppu \<times> ppu \<times> interrupt list) list \<Rightarrow> ppu" where
  "final_state s tr = (if tr = [] then s else fst (snd (last tr)))"

text \<open>
  \<open>k\<close> calls of \<^verbatim>\<open>step\<close> with one cycle each, and their requests in order. A state
  is settled when a call that makes no transition changes nothing but the cycle
  counter: the display is on, no soft reset is pending, the status register shows the
  mode and the result of the LY = LYC comparison, and the window latch is set if the
  line is the window's. Every state that \<^verbatim>\<open>step\<close> returns with the display on is
  settled.
\<close>

fun repeat_step :: "(nat \<Rightarrow> color) \<Rightarrow> nat \<Rightarrow> ppu \<Rightarrow> (ppu \<times> interrupt list) option" where
  "repeat_step ct 0 s = Some (s, [])"
| "repeat_step ct (Suc k) s =
     (case step ct 1 s of
        None \<Rightarrow> None
      | Some (s1, q1) \<Rightarrow>
          (case repeat_step ct k s1 of None \<Rightarrow> None | Some (s2, q2) \<Rightarrow> Some (s2, q1 @ q2)))"

definition settled :: "ppu \<Rightarrow> bool" where
  "settled s =
     (lcd_control s AND DisplayEnable \<noteq> 0 \<and> \<not> previously_disabled s
      \<and> status s = leave_status s
      \<and> (if window_y s = line_y s then window_draw_flag s else True))"

text \<open>
  The line and the cycle count a call starts from: \<^verbatim>\<open>step\<close> resets both to 0 first if
  the soft reset after a disabled period is pending. A start is consistent if the
  display is on and either that reset is pending in HBlank, the mode the disabled
  branch leaves, or the line fits the mode.
\<close>

definition effective_line :: "ppu \<Rightarrow> u8" where
  "effective_line s = (if previously_disabled s then 0 else line_y s)"

definition effective_cycles :: "ppu \<Rightarrow> u32" where
  "effective_cycles s = (if previously_disabled s then 0 else cycles s)"

definition consistent_start :: "ppu \<Rightarrow> bool" where
  "consistent_start s =
     (lcd_control s AND DisplayEnable \<noteq> 0
      \<and> (if previously_disabled s then mode s = HBlank else line_mode_ok s))"

text \<open>
  The background layer is disabled by the control register or by the render-layer mask:
  the test of \<^verbatim>\<open>render_bg_layer\<close>.
\<close>

definition bg_disabled :: "ppu \<Rightarrow> bool" where
  "bg_disabled s = (lcd_control s AND BGEnable = 0 \<or> render_flags s AND Background = 0)"



text \<open>
  Three more states for the instances: a line being drawn whose budget ends with the
  next cycle, a settled HBlank of line 0 four cycles before its end (the status holds
  the LYC flag, line 0 being the compared line, and mode bits 0), and a line on which
  the control register has the background switched off.
\<close>

definition drawing_line :: ppu where
  "drawing_line = post_boot\<lparr>mode := DrawScanline, line_y := 5, cycles := 171\<rparr>"

definition late_hblank :: ppu where
  "late_hblank = post_boot\<lparr>status := 0x04, cycles := 200\<rparr>"

definition background_off :: ppu where
  "background_off = post_boot\<lparr>lcd_control := 0x90, background_palette := 0xE4, line_y := 5\<rparr>"

section \<open>Frame lemmas for the compositor\<close>

lemma for_loop_inv:
  assumes "\<And>i s s'. i < hi \<Longrightarrow> P s \<Longrightarrow> body i s = Some s' \<Longrightarrow> P s'"
    and "P s" and "for_loop i hi body s = Some s'"
  shows "P s'"
  using assms
proof (induction i hi body s rule: for_loop.induct)
  case (1 i hi body s)
  show ?case
  proof (cases "i < hi")
    case True
    with "1.prems"(3) obtain s1 where b: "body i s = Some s1" and r: "for_loop (Suc i) hi body s1 = Some s'"
      by (subst (asm) for_loop.simps) (auto split: option.splits)
    have p1: "P s1" by (rule "1.prems"(1) [OF True "1.prems"(2) b])
    show ?thesis by (rule "1.IH" [OF True b "1.prems"(1) p1 r])
  next
    case False
    with "1.prems" show ?thesis by (subst (asm) for_loop.simps) simp
  qed
qed

lemma render_frame_refl: "render_frame s s"
  by (simp add: render_frame_def)

lemma render_frame_trans: "render_frame s s1 \<Longrightarrow> render_frame s1 s2 \<Longrightarrow> render_frame s s2"
  by (simp add: render_frame_def)

lemma for_loop_frame:
  assumes "\<And>i s s'. body i s = Some s' \<Longrightarrow> render_frame s s'"
    and "for_loop i hi body s = Some s'"
  shows "render_frame s s'"
  by (rule for_loop_inv [where P = "render_frame s" and body = body, OF _ render_frame_refl assms(2)])
     (blast intro: render_frame_trans assms(1))

lemma bg_pixel_frame: "bg_pixel ct tma tda i s = Some s' \<Longrightarrow> render_frame s s'"
  by (auto simp: bg_pixel_def render_frame_def Let_def bind_eq_Some_conv)

lemma render_bg_layer_frame: "render_bg_layer ct s = Some s' \<Longrightarrow> render_frame s s'"
  unfolding render_bg_layer_def Let_def
  by (erule for_loop_frame [rotated]) (rule bg_pixel_frame)



lemma window_pixel_frame: "window_pixel ct tma tda i (s, a) = Some (s', a') \<Longrightarrow> render_frame s s'"
  by (auto simp: window_pixel_def render_frame_def Let_def bind_eq_Some_conv split: if_splits)

lemma window_loop_frame:
  assumes "for_loop i hi (window_pixel ct tma tda) p = Some p'"
  shows "render_frame (fst p) (fst p')"
proof (rule for_loop_inv [where P = "\<lambda>q. render_frame (fst p) (fst q)", OF _ _ assms])
  show "render_frame (fst p) (fst p)" by (rule render_frame_refl)
next
  fix i q q' assume a: "render_frame (fst p) (fst q)" "window_pixel ct tma tda i q = Some q'"
  then have "render_frame (fst q) (fst q')"
    by (cases q, cases q') (simp add: window_pixel_frame)
  with a(1) show "render_frame (fst p) (fst q')" by (rule render_frame_trans)
qed

lemma render_window_layer_frame:
  assumes "render_window_layer ct s = Some s'"
  shows "render_frame s s'"
proof (cases "lcd_control s AND WindowEnable \<noteq> 0 \<and> window_draw_flag s
              \<and> render_flags s AND Window \<noteq> 0")
  case True
  with assms obtain s1 a tma tda
    where l: "for_loop 0 LCD_WIDTH (window_pixel ct tma tda) (s, 0) = Some (s1, a)"
      and r: "s' = s1\<lparr>window_line_y := window_line_y s1 + a\<rparr>"
    unfolding render_window_layer_def Let_def
    by (auto simp: bind_eq_Some_conv)
  from window_loop_frame [OF l] have "render_frame s s1" by simp
  moreover from r have "render_frame s1 s'" by (simp add: render_frame_def)
  ultimately show ?thesis by (rule render_frame_trans)
next
  case False
  with assms show ?thesis
    unfolding render_window_layer_def Let_def
    by (auto simp: render_frame_def)
qed

lemma sprite_pixel_cases:
  assumes "sprite_pixel ct ob pal ti ax x s = Some s'"
  shows "s' = s \<or> (\<exists>fb. s' = s\<lparr>framebuffer := fb\<rparr>)"
proof (cases "0 \<le> ax + int x \<and> ax + int x < 160")
  case False
  with assms show ?thesis by (simp add: sprite_pixel_def Let_def)
next
  case True
  with assms obtain lo hi where
    r: "(let p = pixel_of lo hi (if obj_attributes ob AND FlipX \<noteq> 0 then x AND 7 else 7 - (x AND 7)) in
        if p = 0 then Some s
        else if obj_attributes ob AND Priority = 0
        then Option.bind (put_pixel (framebuffer s) (unat (line_y s) * LCD_WIDTH + nat (ax + int x)) (shade ct pal p))
                (\<lambda>fb. Some (s\<lparr>framebuffer := fb\<rparr>))
        else Option.bind (rd (LCD_WIDTH * LCD_HEIGHT) (bg_color_table s) (unat (line_y s) * LCD_WIDTH + nat (ax + int x)))
               (\<lambda>b. if b = 0 then Option.bind (put_pixel (framebuffer s) (unat (line_y s) * LCD_WIDTH + nat (ax + int x)) (shade ct pal p))
                (\<lambda>fb. Some (s\<lparr>framebuffer := fb\<rparr>)) else Some s)) = Some s'"
    unfolding sprite_pixel_def by (simp add: Let_def bind_eq_Some_conv split del: if_split cong: if_cong) blast
  define p where "p = pixel_of lo hi (if obj_attributes ob AND FlipX \<noteq> 0 then x AND 7 else 7 - (x AND 7))"
  from r show ?thesis
    unfolding Let_def p_def [symmetric]
    by (cases "p = 0"; cases "obj_attributes ob AND Priority = 0")
       (auto simp: bind_eq_Some_conv split: if_split_asm)
qed

lemma sprite_pixel_frame: "sprite_pixel ct ob pal ti ax x s = Some s' \<Longrightarrow> render_frame s s'"
  by (drule sprite_pixel_cases) (auto simp: render_frame_def)

lemma sprite_object_frame:
  assumes "sprite_object ct h i s = Some s'"
  shows "render_frame s s'"
proof -
  from assms obtain object0 where "rd MAX_OBJECTS (objects_on_scanline s)
      (num_obj_on_scanline s - 1 - i) = Some object0"
    unfolding sprite_object_def Let_def by (auto simp only: bind_eq_Some_conv)
  with assms obtain s1 ob pal ti ax
    where s1: "s1 = s\<lparr>objects_on_scanline := (objects_on_scanline s)(num_obj_on_scanline s - 1 - i := ob)\<rparr>"
      and l: "for_loop 0 8 (sprite_pixel ct ob pal ti ax) s1 = Some s'"
    unfolding sprite_object_def Let_def by (simp only: Option.bind.simps)
  from for_loop_frame [OF sprite_pixel_frame l] have "render_frame s1 s'" .
  moreover from s1 have "render_frame s s1" by (simp add: render_frame_def)
  ultimately show ?thesis by (rule render_frame_trans [rotated])
qed

lemma render_sprite_layer_frame:
  assumes "render_sprite_layer ct s = Some s'"
  shows "render_frame s s'"
proof (cases "lcd_control s AND SpriteEnable \<noteq> 0 \<and> render_flags s AND Objects \<noteq> 0")
  case True
  with assms obtain h where "for_loop 0 (num_obj_on_scanline s) (sprite_object ct h) s = Some s'"
    unfolding render_sprite_layer_def Let_def by auto
  from for_loop_frame [OF sprite_object_frame this] show ?thesis .
next
  case False
  with assms show ?thesis
    unfolding render_sprite_layer_def Let_def by (auto simp: render_frame_refl)
qed

lemma render_scanline_frame:
  assumes "render_scanline ct s = Some s'"
  shows "render_frame s s'"
proof -
  from assms obtain s1 s2 where 1: "render_bg_layer ct s = Some s1"
    and 2: "(if render_flags s1 AND Window \<noteq> 0 then render_window_layer ct s1 else Some s1) = Some s2"
    and 3: "(if render_flags s2 AND Objects \<noteq> 0 then render_sprite_layer ct s2 else Some s2) = Some s'"
    unfolding render_scanline_def by (auto simp: bind_eq_Some_conv)
  have a: "render_frame s s1" using 1 by (rule render_bg_layer_frame)
  have b: "render_frame s1 s2" using 2
    by (auto simp: render_frame_refl render_window_layer_frame split: if_splits)
  have c: "render_frame s2 s'" using 3
    by (auto simp: render_frame_refl render_sprite_layer_frame split: if_splits)
  show ?thesis by (rule render_frame_trans [OF render_frame_trans [OF a b] c])
qed

section \<open>The OAM scan in closed form\<close>

lemma selected_stop: "40 \<le> i \<or> t = 10 \<Longrightarrow> selected h i t s = []"
  by (auto simp: selected_def)

lemma selected_hit:
  assumes "i < 40" "t < 10" "on_line h (line_y s) (oam_object (oam s) i)"
  shows "selected h i t s = oam_object (oam s) i # selected h (Suc i) (Suc t) s"
proof -
  from assms(2) have "10 - t = Suc (10 - Suc t)" by simp
  with assms(1,3) show ?thesis
    by (simp add: selected_def upt_conv_Cons)
qed

lemma selected_miss:
  assumes "i < 40" "\<not> on_line h (line_y s) (oam_object (oam s) i)"
  shows "selected h i t s = selected h (Suc i) t s"
  using assms by (simp add: selected_def upt_conv_Cons)

lemma selected_upd [simp]:
  "selected h i t (s\<lparr>objects_on_scanline := f\<rparr>) = selected h i t s"
  "selected h i t (s\<lparr>num_obj_on_scanline := m\<rparr>) = selected h i t s"
  by (simp_all add: selected_def)

lemma empty_range_fun: "(\<lambda>k. if t \<le> k \<and> k < (t::nat) then g k else f k) = f"
  by (auto simp: fun_eq_iff)

lemma scan_oam_loop_closed:
  "t \<le> 10 \<Longrightarrow>
   scan_oam_loop h i t s =
     s\<lparr>objects_on_scanline :=
         (\<lambda>k. if t \<le> k \<and> k < t + length (selected h i t s)
              then selected h i t s ! (k - t) else objects_on_scanline s k),
       num_obj_on_scanline := num_obj_on_scanline s + length (selected h i t s)\<rparr>"
proof (induction h i t s rule: scan_oam_loop.induct)
  case (1 h i t s)
  show ?case
  proof (cases "i < 40 \<and> t \<noteq> 10")
    case False
    then have "selected h i t s = []" by (auto simp: selected_stop)
    moreover from False have "scan_oam_loop h i t s = s"
      by (subst scan_oam_loop.simps) auto
    ultimately show ?thesis by (simp add: empty_range_fun)
  next
    case True
    with "1.prems" have lt: "i < 40" "t < 10" "t \<noteq> 10" by simp_all
    let ?sp = "oam_object (oam s) i"
    show ?thesis
    proof (cases "on_line h (line_y s) ?sp")
      case hit: True
      let ?s1 = "s\<lparr>objects_on_scanline := (objects_on_scanline s)(t := ?sp),
                    num_obj_on_scanline := num_obj_on_scanline s + 1\<rparr>"
      have unf: "scan_oam_loop h i t s = scan_oam_loop h (Suc i) (Suc t) ?s1"
        using lt hit by (subst scan_oam_loop.simps) (simp add: Let_def)
      have ih: "scan_oam_loop h (Suc i) (Suc t) ?s1 =
          ?s1\<lparr>objects_on_scanline :=
            (\<lambda>k. if Suc t \<le> k \<and> k < Suc t + length (selected h (Suc i) (Suc t) ?s1)
              then selected h (Suc i) (Suc t) ?s1 ! (k - Suc t) else objects_on_scanline ?s1 k),
            num_obj_on_scanline := num_obj_on_scanline ?s1 + length (selected h (Suc i) (Suc t) ?s1)\<rparr>"
        using "1.IH"(1) [OF lt(1) lt(3) refl hit] lt(2) by simp
      have sel: "selected h i t s = ?sp # selected h (Suc i) (Suc t) s"
        using lt hit by (simp add: selected_hit)
      show ?thesis
        unfolding unf ih sel
        by (auto simp: fun_eq_iff nth_Cons' intro!: ppu.equality)
    next
      case miss: False
      have unf: "scan_oam_loop h i t s = scan_oam_loop h (Suc i) t s"
        using lt miss by (subst scan_oam_loop.simps) (simp add: Let_def)
      have sel: "selected h i t s = selected h (Suc i) t s"
        using lt miss by (simp add: selected_miss)
      show ?thesis
        unfolding unf sel using "1.IH"(2) [OF lt(1) lt(3) refl miss] "1.prems" by simp
    qed
  qed
qed

lemma insert_stable_insort:
  "insert_stable (\<lambda>left right. f left < f right) a bs = insort_key f a bs"
  for f :: "'a \<Rightarrow> 'b::linorder"
  by (induction bs) (auto simp: not_less)

lemma stable_sort_sort_key:
  "stable_sort (\<lambda>left right. f left < f right) xs = sort_key f xs"
  for f :: "'a \<Rightarrow> 'b::linorder"
  by (induction xs) (simp_all add: stable_sort_def insert_stable_insort)

lemma scan_oam_closed:
  "scan_oam s =
     (let h = (if lcd_control s AND SpriteSize \<noteq> 0 then 16 else 8);
          sel = selected h 0 0 s
      in s\<lparr>num_obj_on_scanline := length sel,
            objects_on_scanline :=
              (\<lambda>k. if k < length sel then sort_key obj_x sel ! k else Object 0 0 0 0)\<rparr>)"
proof -
  define h :: int where "h = (if lcd_control s AND SpriteSize \<noteq> 0 then 16 else 8)"
  define s1 where "s1 = s\<lparr>num_obj_on_scanline := 0, objects_on_scanline := (\<lambda>_. Object 0 0 0 0)\<rparr>"
  define sel where "sel = selected h 0 0 s"
  have sel1: "selected h 0 0 s1 = sel" by (simp add: s1_def sel_def)
  have s2: "scan_oam_loop h 0 0 s1 =
      s\<lparr>num_obj_on_scanline := length sel,
        objects_on_scanline := (\<lambda>k. if k < length sel then sel ! k else Object 0 0 0 0)\<rparr>"
    by (simp add: scan_oam_loop_closed sel1 cong: if_cong) (simp add: s1_def cong: if_cong)
  have m: "map (\<lambda>k. if k < length sel then sel ! k else Object 0 0 0 0) [0..<length sel] = sel"
    by (rule nth_equalityI) simp_all
  show ?thesis
    unfolding scan_oam_def Let_def h_def [symmetric] s1_def [symmetric] s2 sel_def [symmetric]
    by (simp add: m stable_sort_sort_key fun_eq_iff)
qed

lemma scan_oam_result:
  "map (objects_on_scanline (scan_oam s)) [0..<num_obj_on_scanline (scan_oam s)] =
     sort_key obj_x (selected (if lcd_control s AND SpriteSize \<noteq> 0 then 16 else 8) 0 0 s)"
  by (rule nth_equalityI) (simp_all add: scan_oam_closed Let_def)

lemma scan_oam_num:
  "num_obj_on_scanline (scan_oam s) =
     length (selected (if lcd_control s AND SpriteSize \<noteq> 0 then 16 else 8) 0 0 s)"
  by (simp add: scan_oam_closed Let_def)

section \<open>The structure of a step\<close>

lemma step_disabled:
  "lcd_control s AND DisplayEnable = 0 \<Longrightarrow>
   step ct n s = Some (s\<lparr>mode := HBlank, status := status s AND NOT ModeFlag,
                          previously_disabled := True\<rparr>, [])"
  by (simp add: step_def set_stat_def)

lemma stat_any_enter: "stat_any (enter n s) = stat_any s"
  by (simp add: enter_def stat_any_def check_stat_def reset_def Let_def)

lemma step_unfold:
  "step ct n s =
     (if lcd_control s AND DisplayEnable = 0
      then (let s1 = set_stat ModeFlag False (s\<lparr>mode := HBlank\<rparr>);
                s2 = s1\<lparr>status := status s1 OR (mode_num (mode s1) AND 0x03)\<rparr>
            in Some (s2\<lparr>previously_disabled := True\<rparr>, []))
      else (let s2 = enter n s;
                allow_interrupt = (if stat_any s2 then False else True)
            in do {
              (s3, reqs) \<leftarrow> switch_mode ct allow_interrupt s2;
              let (s4, reqs') = check_ly_lyc allow_interrupt s3;
              let s5 = (if window_y s4 = line_y s4 then s4\<lparr>window_draw_flag := True\<rparr> else s4);
              let s6 = set_stat ModeFlag False s5;
              Some (s6\<lparr>status := status s6 OR (mode_num (mode s6) AND 0x03)\<rparr>, reqs @ reqs')
            }))"
  unfolding step_def enter_def Let_def by (rule refl)

lemma step_enabled:
  assumes "lcd_control s AND DisplayEnable \<noteq> 0"
  shows "step ct n s =
     (case switch_mode ct (\<not> stat_any s) (enter n s) of
        None \<Rightarrow> None
      | Some (s3, reqs) \<Rightarrow> Some (fst (leave (\<not> stat_any s) s3),
                                reqs @ snd (leave (\<not> stat_any s) s3)))"
proof -
  have a: "(if stat_any (enter n s) then False else True) = (\<not> stat_any s)"
    by (simp add: stat_any_enter)
  show ?thesis
    unfolding step_unfold Let_def a
    by (cases "switch_mode ct (\<not> stat_any s) (enter n s)")
       (simp_all add: assms leave_def Let_def split: prod.splits)
qed

lemma stat_any_iff:
  "stat_any s \<longleftrightarrow>
     (check_stat EnableLYCandLYInt s \<and> check_stat LYCandLYCompareType s)
     \<or> (check_stat EnableOAMInt s \<and> mode s = OAMSearch)
     \<or> (check_stat EnableVBlankInt s \<and> mode s = VBlank)
     \<or> (check_stat EnableHBlankInt s \<and> mode s = HBlank)"
  by (cases "mode s") (auto simp: stat_any_def)

lemma switch_mode_blocked:
  assumes "switch_mode ct False s = Some (s', q)"
  shows "INT_LCD_STAT_BIT \<notin> set q"
proof (cases "mode s")
  case HBlank
  with assms show ?thesis by (auto simp: switch_mode_def Let_def split: if_splits)
next
  case VBlank
  with assms show ?thesis by (auto simp: switch_mode_def Let_def split: if_splits)
next
  case OAMSearch
  with assms show ?thesis by (auto simp: switch_mode_def Let_def split: if_splits)
next
  case DrawScanline
  with assms show ?thesis
    by (auto simp: switch_mode_def Let_def bind_eq_Some_conv split: if_splits)
qed

lemma leave_blocked: "snd (leave False s) = []"
  by (simp add: leave_def check_ly_lyc_def Let_def split: prod.splits)

lemmas flag_defs =
  BGEnable_def SpriteEnable_def SpriteSize_def BGTileMap_def BGWindowTileData_def
  WindowEnable_def WindowTileMap_def DisplayEnable_def ModeFlag_def
  LYCandLYCompareType_def EnableHBlankInt_def EnableVBlankInt_def EnableOAMInt_def
  EnableLYCandLYInt_def

lemma post_boot_simps:
  "status post_boot = 1" "lcd_control post_boot = 0x91" "mode post_boot = HBlank"
  "cycles post_boot = 420" "line_y post_boot = 0" "previously_disabled post_boot = False"
  "line_y_compare post_boot = 0" "window_y post_boot = 0"
  by (simp_all add: post_boot_def set_post_boot_state_def reset_def power_on_def)

lemma switch_HBlank:
  "mode s = HBlank \<Longrightarrow>
   switch_mode ct a s =
     Some (if cycles s \<ge> 204
           then (if line_y s + 1 = 144
                 then (s\<lparr>cycles := cycles s - 204, line_y := line_y s + 1, mode := VBlank\<rparr>,
                       INT_VBLANK_BIT # (if check_stat EnableVBlankInt s \<and> a then [INT_LCD_STAT_BIT] else []))
                 else (s\<lparr>cycles := cycles s - 204, line_y := line_y s + 1, mode := OAMSearch\<rparr>,
                       if check_stat EnableOAMInt s \<and> a then [INT_LCD_STAT_BIT] else []))
           else (s, []))"
  by (simp add: switch_mode_def Let_def check_stat_def)

lemma switch_VBlank:
  "mode s = VBlank \<Longrightarrow>
   switch_mode ct a s =
     Some (if cycles s \<ge> 456
           then (if line_y s + 1 > 153
                 then (s\<lparr>cycles := cycles s - 456, framebuffer_complete := framebuffer s,
                         mode := OAMSearch, line_y := 0, window_line_y := 0,
                         window_draw_flag := False\<rparr>,
                       if check_stat EnableOAMInt s \<and> a then [INT_LCD_STAT_BIT] else [])
                 else (s\<lparr>line_y := line_y s + 1, cycles := cycles s - 456\<rparr>, []))
           else (s, []))"
  by (simp add: switch_mode_def Let_def check_stat_def)

lemma scan_oam_fields:
  "scan_oam s = s\<lparr>num_obj_on_scanline := num_obj_on_scanline (scan_oam s),
                  objects_on_scanline := objects_on_scanline (scan_oam s)\<rparr>"
  by (simp add: scan_oam_closed Let_def)

lemma switch_OAMSearch:
  "mode s = OAMSearch \<Longrightarrow>
   switch_mode ct a s =
     Some (if cycles s \<ge> 80
           then (s\<lparr>num_obj_on_scanline := num_obj_on_scanline (scan_oam s),
                   objects_on_scanline := objects_on_scanline (scan_oam s),
                   cycles := cycles s - 80, mode := DrawScanline\<rparr>, [])
           else (s, []))"
  by (simp add: switch_mode_def Let_def) (subst scan_oam_fields, simp add: scan_oam_closed Let_def)

lemma switch_DrawScanline:
  "mode s = DrawScanline \<Longrightarrow>
   switch_mode ct a s =
     (if cycles s \<ge> 172
      then (case render_scanline ct (s\<lparr>cycles := cycles s - 172, mode := HBlank\<rparr>) of
              None \<Rightarrow> None
            | Some s2 \<Rightarrow> Some (s2, if check_stat EnableHBlankInt s \<and> a then [INT_LCD_STAT_BIT] else []))
      else Some (s, []))"
  by (simp add: switch_mode_def Let_def check_stat_def split: option.splits)

lemma leave_status_enable:
  "leave_status s AND 0x08 = status s AND 0x08" "leave_status s AND 0x10 = status s AND 0x10"
  "leave_status s AND 0x20 = status s AND 0x20" "leave_status s AND 0x40 = status s AND 0x40"
  by (simp_all add: leave_status_def flag_defs bit.conj_disj_distrib2 and.assoc)

lemma leave_status_high: "leave_status s AND 0xF8 = status s AND 0xF8"
  by (simp add: leave_status_def flag_defs bit.conj_disj_distrib2 and.assoc)

lemma leave_status_lyc:
  "leave_status s AND 0x04 = (if line_y s = line_y_compare s then 0x04 else 0)"
  by (simp add: leave_status_def flag_defs bit.conj_disj_distrib2 and.assoc)

lemma leave_status_mode: "leave_status s AND 0x03 = mode_num (mode s)"
  by (cases "mode s")
     (simp_all add: leave_status_def flag_defs bit.conj_disj_distrib2 and.assoc)

lemma word8_parts:
  fixes a b :: u8
  assumes "a AND 0xF8 = b AND 0xF8" "a AND 0x04 = b AND 0x04" "a AND 0x03 = b AND 0x03"
  shows "a = b"
proof -
  have ff: "(0xF8 OR 0x04 OR 0x03 :: u8) = - 1" by simp
  have "a = a AND (0xF8 OR 0x04 OR 0x03)" by (simp only: ff and.right_neutral)
  also have "\<dots> = (a AND 0xF8) OR (a AND 0x04) OR (a AND 0x03)"
    by (simp only: bit.conj_disj_distrib)
  also have "\<dots> = (b AND 0xF8) OR (b AND 0x04) OR (b AND 0x03)"
    by (simp only: assms)
  also have "\<dots> = b AND (0xF8 OR 0x04 OR 0x03)"
    by (simp only: bit.conj_disj_distrib)
  also have "\<dots> = b" by (simp only: ff and.right_neutral)
  finally show ?thesis .
qed

lemma check_stat_leave_status:
  "check_stat EnableHBlankInt (s\<lparr>status := leave_status t\<rparr>) = check_stat EnableHBlankInt t"
  "check_stat EnableVBlankInt (s\<lparr>status := leave_status t\<rparr>) = check_stat EnableVBlankInt t"
  "check_stat EnableOAMInt (s\<lparr>status := leave_status t\<rparr>) = check_stat EnableOAMInt t"
  "check_stat EnableLYCandLYInt (s\<lparr>status := leave_status t\<rparr>) = check_stat EnableLYCandLYInt t"
  "check_stat LYCandLYCompareType (s\<lparr>status := leave_status t\<rparr>) = (line_y t = line_y_compare t)"
  by (simp_all add: check_stat_def flag_defs leave_status_enable leave_status_lyc)

lemma leave_eq:
  "leave a s =
     (s\<lparr>status := leave_status s,
        window_draw_flag := (window_y s = line_y s \<or> window_draw_flag s)\<rparr>,
      if line_y s = line_y_compare s \<and> check_stat EnableLYCandLYInt s \<and> a
      then [INT_LCD_STAT_BIT] else [])"
proof -
  have "(status s AND NOT 4 OR 4) AND 0x40 = status s AND 0x40"
    by (simp add: bit.conj_disj_distrib2 and.assoc)
  then have e: "check_stat EnableLYCandLYInt
      (s\<lparr>status := status s AND NOT LYCandLYCompareType OR LYCandLYCompareType\<rparr>)
      = check_stat EnableLYCandLYInt s"
    by (simp add: check_stat_def flag_defs)
  show ?thesis
  proof (cases "line_y s = line_y_compare s")
    case True
    then show ?thesis
      by (cases "window_y s = line_y s")
         (simp_all add: leave_def check_ly_lyc_def set_stat_def leave_status_def Let_def e)
  next
    case False
    then show ?thesis
      by (cases "window_y s = line_y s")
         (simp_all add: leave_def check_ly_lyc_def set_stat_def leave_status_def Let_def)
  qed
qed

lemma render_frame_config: "render_frame s s' \<Longrightarrow> config s' = config s"
  by (simp add: render_frame_def config_def)

lemma switch_mode_summary:
  assumes "switch_mode ct a s = Some (s', q)"
  shows "(mode s', line_y s') = (if due s then advance_ml (mode s) (line_y s) else (mode s, line_y s))"
    and "cycles s' = (if due s then cycles s - budget (mode s) else cycles s)"
    and "config s' = config s"
    and "status s' = status s"
    and "previously_disabled s' = previously_disabled s"
    and "framebuffer_complete s' =
          (if due s \<and> mode s = VBlank \<and> line_y s + 1 > 153 then framebuffer s
           else framebuffer_complete s)"
    and "q = switch_reqs a s"
proof -
  have "(mode s', line_y s') = (if due s then advance_ml (mode s) (line_y s) else (mode s, line_y s))
    \<and> cycles s' = (if due s then cycles s - budget (mode s) else cycles s)
    \<and> config s' = config s \<and> status s' = status s
    \<and> previously_disabled s' = previously_disabled s
    \<and> framebuffer_complete s' =
          (if due s \<and> mode s = VBlank \<and> line_y s + 1 > 153 then framebuffer s
           else framebuffer_complete s)
    \<and> q = switch_reqs a s"
  proof (cases "mode s")
    case HBlank
    with assms show ?thesis
      by (auto simp: switch_HBlank due_def config_def switch_reqs_def split: if_splits)
  next
    case VBlank
    with assms show ?thesis
      by (auto simp: switch_VBlank due_def config_def switch_reqs_def split: if_splits)
  next
    case OAMSearch
    with assms show ?thesis
      by (auto simp: switch_OAMSearch due_def config_def switch_reqs_def split: if_splits)
  next
    case DrawScanline
    show ?thesis
    proof (cases "due s")
      case False
      with assms DrawScanline show ?thesis
        by (auto simp: switch_DrawScanline due_def switch_reqs_def)
    next
      case True
      with assms DrawScanline have
        r: "render_scanline ct (s\<lparr>cycles := cycles s - 172, mode := HBlank\<rparr>) = Some s'"
        and q: "q = (if check_stat EnableHBlankInt s \<and> a then [INT_LCD_STAT_BIT] else [])"
        by (auto simp: switch_DrawScanline due_def split: option.splits)
      from render_scanline_frame [OF r] have
        f: "render_frame (s\<lparr>cycles := cycles s - 172, mode := HBlank\<rparr>) s'" .
      from f have "config s' = config s"
        by (simp add: render_frame_def config_def)
      with f q True DrawScanline show ?thesis
        by (simp add: render_frame_def switch_reqs_def)
    qed
  qed
  then show "(mode s', line_y s') = (if due s then advance_ml (mode s) (line_y s) else (mode s, line_y s))"
    and "cycles s' = (if due s then cycles s - budget (mode s) else cycles s)"
    and "config s' = config s"
    and "status s' = status s"
    and "previously_disabled s' = previously_disabled s"
    and "framebuffer_complete s' =
          (if due s \<and> mode s = VBlank \<and> line_y s + 1 > 153 then framebuffer s
           else framebuffer_complete s)"
    and "q = switch_reqs a s"
    by blast+
qed

lemma enter_fields:
  "mode (enter n s) = mode s" "status (enter n s) = status s" "config (enter n s) = config s"
  "framebuffer (enter n s) = framebuffer s"
  "framebuffer_complete (enter n s) = framebuffer_complete s"
  "previously_disabled (enter n s) = False"
  "line_y (enter n s) = (if previously_disabled s then 0 else line_y s)"
  "cycles (enter n s) = (if previously_disabled s then 0 else cycles s) + n"
  by (simp_all add: enter_def reset_def config_def Let_def)

lemma step_summary:
  assumes en: "lcd_control s AND DisplayEnable \<noteq> 0"
    and run: "step ct n s = Some (s', q)"
  shows "(mode s', line_y s') =
           (if due (enter n s) then advance_ml (mode s) (line_y (enter n s))
            else (mode s, line_y (enter n s)))"
    and "cycles s' = (if due (enter n s) then cycles (enter n s) - budget (mode s)
                      else cycles (enter n s))"
    and "config s' = config s"
    and "previously_disabled s' = False"
    and "framebuffer_complete s' =
          (if due (enter n s) \<and> mode s = VBlank \<and> line_y (enter n s) + 1 > 153
           then framebuffer s else framebuffer_complete s)"
    and "q = switch_reqs (\<not> stat_any s) (enter n s) @
             (if line_y s' = line_y_compare s \<and> check_stat EnableLYCandLYInt s \<and> \<not> stat_any s
              then [INT_LCD_STAT_BIT] else [])"
proof -
  from run obtain s3 q1 where sw: "switch_mode ct (\<not> stat_any s) (enter n s) = Some (s3, q1)"
    and s': "s' = fst (leave (\<not> stat_any s) s3)"
    and q: "q = q1 @ snd (leave (\<not> stat_any s) s3)"
    by (auto simp: step_enabled [OF en] split: option.splits)
  note sm = switch_mode_summary [OF sw, unfolded enter_fields(1-6)]
  have ml: "mode s' = mode s3" "line_y s' = line_y s3" "cycles s' = cycles s3"
    "config s' = config s3" "previously_disabled s' = previously_disabled s3"
    "framebuffer_complete s' = framebuffer_complete s3"
    by (simp_all add: s' leave_eq config_def)
  from sm(1) ml show "(mode s', line_y s') =
           (if due (enter n s) then advance_ml (mode s) (line_y (enter n s))
            else (mode s, line_y (enter n s)))" by simp
  from sm(2) ml show "cycles s' = (if due (enter n s) then cycles (enter n s) - budget (mode s)
                      else cycles (enter n s))" by simp
  from sm(3) ml show "config s' = config s" by simp
  from sm(5) ml show "previously_disabled s' = False" by simp
  from sm(6) ml show "framebuffer_complete s' =
          (if due (enter n s) \<and> mode s = VBlank \<and> line_y (enter n s) + 1 > 153
           then framebuffer s else framebuffer_complete s)" by simp
  have "config s3 = config s" using sm(3) .
  then have lyc: "line_y_compare s3 = line_y_compare s" by (simp add: config_def)
  have "check_stat EnableLYCandLYInt s3 = check_stat EnableLYCandLYInt s"
    using sm(4) by (simp add: check_stat_def)
  with q sm(7) lyc ml(2) show "q = switch_reqs (\<not> stat_any s) (enter n s) @
             (if line_y s' = line_y_compare s \<and> check_stat EnableLYCandLYInt s \<and> \<not> stat_any s
              then [INT_LCD_STAT_BIT] else [])"
    by (simp add: leave_eq)
qed

lemmas eval_step =
  step_def switch_mode_def check_ly_lyc_def set_stat_def stat_any_def check_stat_def
  flag_defs post_boot_simps Let_def

section \<open>Facts about the concrete states\<close>

lemma crowded_line_simps:
  "lcd_control crowded_line AND SpriteSize = 0" "line_y crowded_line = 0"
  "oam crowded_line = (\<lambda>i. if i mod 4 = 0 then 16
                        else if i mod 4 = 1 then of_nat (50 - i div 4) else 0)"
  by (simp_all add: crowded_line_def post_boot_simps SpriteSize_def)

lemma crowded_chosen:
  "take 10 (filter (\<lambda>e. int (unat (obj_y e)) - 16 \<le> int (unat (line_y crowded_line))
                     \<and> int (unat (line_y crowded_line)) < int (unat (obj_y e)) - 16
                          + (if lcd_control crowded_line AND SpriteSize \<noteq> 0 then 16 else 8))
      (map (oam_object (oam crowded_line)) [0..<40]))
   = [Object 16 50 0 0, Object 16 49 0 0, Object 16 48 0 0, Object 16 47 0 0,
      Object 16 46 0 0, Object 16 45 0 0, Object 16 44 0 0, Object 16 43 0 0,
      Object 16 42 0 0, Object 16 41 0 0]"
  unfolding crowded_line_simps by code_simp

section \<open>Sequences of calls\<close>

lemma trace_all:
  assumes inv: "\<And>n s s' q. I s \<Longrightarrow> step ct n s = Some (s', q) \<Longrightarrow> I s' \<and> P (s, s', q)"
  shows "I s \<Longrightarrow> trace ct ns s = Some tr \<Longrightarrow> list_all P tr"
proof (induction ns arbitrary: s tr)
  case Nil
  then show ?case by simp
next
  case (Cons n ns)
  from Cons.prems(2) obtain s1 q tr1 where st: "step ct n s = Some (s1, q)"
    and tr1: "trace ct ns s1 = Some tr1" and tr: "tr = (s, s1, q) # tr1"
    by (auto split: option.splits)
  from inv [OF Cons.prems(1) st] have "I s1" "P (s, s1, q)" by simp_all
  with Cons.IH [OF \<open>I s1\<close> tr1] tr show ?case by simp
qed

lemma advance_ml_cycle:
  assumes "if m = VBlank then 144 \<le> l \<and> l \<le> 153 else l \<le> 143"
    and "advance_ml m l = (m', l')"
  shows "cycle_arrow (m, l) (m', l')"
    and "if m' = VBlank then 144 \<le> l' \<and> l' \<le> 153 else l' \<le> 143"
  using assms
  by (cases m; auto split: if_splits; unat_arith)+

lemma step_keeps_enabled:
  assumes "step ct n s = Some (s', q)"
  shows "lcd_control s' = lcd_control s"
proof (cases "lcd_control s AND DisplayEnable = 0")
  case True
  with assms show ?thesis by (auto simp: step_disabled)
next
  case False
  from step_summary(3) [OF False assms] show ?thesis by (simp add: config_def)
qed

lemma step_running:
  assumes r: "running s" and st: "step ct n s = Some (s', q)"
  shows "running s'"
    and "(mode s', line_y s') = (mode s, line_y s)
         \<or> cycle_arrow (mode s, line_y s) (mode s', line_y s')"
proof -
  from r have en: "lcd_control s AND DisplayEnable \<noteq> 0" and pd: "\<not> previously_disabled s"
    and ok: "if mode s = VBlank then 144 \<le> line_y s \<and> line_y s \<le> 153 else line_y s \<le> 143"
    by (simp_all add: running_def line_mode_ok_def)
  note sm = step_summary [OF en st]
  from pd have l: "line_y (enter n s) = line_y s" by (simp add: enter_fields)
  have en': "lcd_control s' AND DisplayEnable \<noteq> 0"
    using en step_keeps_enabled [OF st] by simp
  show "(mode s', line_y s') = (mode s, line_y s)
         \<or> cycle_arrow (mode s, line_y s) (mode s', line_y s')"
  proof (cases "due (enter n s)")
    case False
    with sm(1) l show ?thesis by simp
  next
    case True
    with sm(1) l have "advance_ml (mode s) (line_y s) = (mode s', line_y s')" by simp
    from advance_ml_cycle(1) [OF ok this] show ?thesis by simp
  qed
  show "running s'"
  proof (cases "due (enter n s)")
    case False
    with sm(1) l have "mode s' = mode s" "line_y s' = line_y s" by simp_all
    with ok en' sm(4) show ?thesis by (simp add: running_def line_mode_ok_def)
  next
    case True
    with sm(1) l have "advance_ml (mode s) (line_y s) = (mode s', line_y s')" by simp
    from advance_ml_cycle(2) [OF ok this] en' sm(4) show ?thesis
      by (simp add: running_def line_mode_ok_def)
  qed
qed

lemma count_stat_tail [simp]:
  "count_list (xs @ (if c then [INT_LCD_STAT_BIT] else [])) INT_VBLANK_BIT
     = count_list xs INT_VBLANK_BIT"
  by simp

lemma switch_reqs_vblank:
  "count_list (switch_reqs a s) INT_VBLANK_BIT =
     (if due s \<and> mode s = HBlank \<and> line_y s + 1 = 144 then 1 else 0)"
  by (cases "mode s") (simp_all add: switch_reqs_def)

lemma step_vblank:
  assumes en: "lcd_control s AND DisplayEnable \<noteq> 0" and st: "step ct n s = Some (s', q)"
  shows "if mode s = HBlank \<and> mode s' = VBlank
         then line_y s' = 144 \<and> count_list q INT_VBLANK_BIT = 1
         else count_list q INT_VBLANK_BIT = 0"
    and "count_list q INT_VBLANK_BIT + (if mode s = VBlank then 1 else 0)
         = (if mode s = VBlank \<and> mode s' = OAMSearch then 1 else 0)
           + (if mode s' = VBlank then 1 else 0)"
proof -
  note sm = step_summary [OF en st]
  have c: "count_list q INT_VBLANK_BIT =
      (if due (enter n s) \<and> mode s = HBlank \<and> line_y (enter n s) + 1 = 144 then 1 else 0)"
    by (subst sm(6)) (simp add: switch_reqs_vblank enter_fields del: count_list.simps)
  show "if mode s = HBlank \<and> mode s' = VBlank
         then line_y s' = 144 \<and> count_list q INT_VBLANK_BIT = 1
         else count_list q INT_VBLANK_BIT = 0"
    using sm(1) c by (cases "mode s") (auto split: if_splits)
  show "count_list q INT_VBLANK_BIT + (if mode s = VBlank then 1 else 0)
         = (if mode s = VBlank \<and> mode s' = OAMSearch then 1 else 0)
           + (if mode s' = VBlank then 1 else 0)"
    using sm(1) c by (cases "mode s") (auto split: if_splits)
qed

lemma final_state_Cons:
  "trace ct ns s1 = Some tr1 \<Longrightarrow> final_state s ((s, s1, q) # tr1) = final_state s1 tr1"
  by (cases ns) (auto simp: final_state_def split: option.splits)

lemma trace_vblank_balance:
  "lcd_control s AND DisplayEnable \<noteq> 0 \<Longrightarrow> trace ct ns s = Some tr \<Longrightarrow>
   count_list (concat (map (\<lambda>(pre, post, reqs). reqs) tr)) INT_VBLANK_BIT
     + (if mode s = VBlank then 1 else 0)
   = length (filter (\<lambda>(pre, post, reqs). mode pre = VBlank \<and> mode post = OAMSearch) tr)
     + (if mode (final_state s tr) = VBlank then 1 else 0)"
proof (induction ns arbitrary: s tr)
  case Nil
  then show ?case by (simp add: final_state_def)
next
  case (Cons n ns)
  from Cons.prems(2) obtain s1 q tr1 where st: "step ct n s = Some (s1, q)"
    and tr1: "trace ct ns s1 = Some tr1" and tr: "tr = (s, s1, q) # tr1"
    by (auto split: option.splits)
  have en1: "lcd_control s1 AND DisplayEnable \<noteq> 0"
    using Cons.prems(1) step_keeps_enabled [OF st] by simp
  note ih = Cons.IH [OF en1 tr1]
  note b = step_vblank(2) [OF Cons.prems(1) st]
  have f: "final_state s tr = final_state s1 tr1"
    unfolding tr by (rule final_state_Cons [OF tr1])
  show ?case
    unfolding f unfolding tr using ih b
    by (simp del: count_list.simps split: if_splits)
qed

lemma scan_oam_eval:
  "mode (scan_oam s) = mode s" "status (scan_oam s) = status s" "line_y (scan_oam s) = line_y s"
  "cycles (scan_oam s) = cycles s" "line_y_compare (scan_oam s) = line_y_compare s"
  "window_y (scan_oam s) = window_y s" "lcd_control (scan_oam s) = lcd_control s"
  "previously_disabled (scan_oam s) = previously_disabled s"
  by (simp_all add: scan_oam_closed Let_def)

lemma trace_all2:
  assumes inv: "\<And>n s s' q. I s \<Longrightarrow> step ct n s = Some (s', q) \<Longrightarrow> I s' \<and> P n (s, s', q)"
  shows "I s \<Longrightarrow> trace ct ns s = Some tr \<Longrightarrow> list_all2 P ns tr"
proof (induction ns arbitrary: s tr)
  case Nil
  then show ?case by simp
next
  case (Cons n ns)
  from Cons.prems(2) obtain s1 q tr1 where st: "step ct n s = Some (s1, q)"
    and tr1: "trace ct ns s1 = Some tr1" and tr: "tr = (s, s1, q) # tr1"
    by (auto split: option.splits)
  from inv [OF Cons.prems(1) st] have "I s1" "P n (s, s1, q)" by simp_all
  with Cons.IH [OF \<open>I s1\<close> tr1] tr show ?case by simp
qed

lemma due_enter:
  "due (enter n s) \<longleftrightarrow> budget (mode s) \<le> effective_cycles s + n"
  by (simp add: due_def enter_fields effective_cycles_def)

lemma step_cycle:
  assumes c: "consistent_start s" and st: "step ct n s = Some (s', q)"
  shows "running s'"
    and "if budget (mode s) \<le> effective_cycles s + n
         then cycle_arrow (mode s, effective_line s) (mode s', line_y s')
         else (mode s', line_y s') = (mode s, effective_line s)"
proof -
  from c have en: "lcd_control s AND DisplayEnable \<noteq> 0" by (simp add: consistent_start_def)
  have l: "line_y (enter n s) = effective_line s"
    by (simp add: enter_fields effective_line_def)
  have ok: "if mode s = VBlank then 144 \<le> effective_line s \<and> effective_line s \<le> 153
            else effective_line s \<le> 143"
    using c by (auto simp: consistent_start_def effective_line_def line_mode_ok_def
        split: if_splits)
  note sm = step_summary [OF en st, unfolded l due_enter]
  have en': "lcd_control s' AND DisplayEnable \<noteq> 0"
    using en step_keeps_enabled [OF st] by simp
  show "if budget (mode s) \<le> effective_cycles s + n
         then cycle_arrow (mode s, effective_line s) (mode s', line_y s')
         else (mode s', line_y s') = (mode s, effective_line s)"
  proof (cases "budget (mode s) \<le> effective_cycles s + n")
    case False
    with sm(1) show ?thesis by simp
  next
    case True
    with sm(1) have "advance_ml (mode s) (effective_line s) = (mode s', line_y s')" by simp
    from advance_ml_cycle(1) [OF ok this] True show ?thesis by simp
  qed
  show "running s'"
  proof (cases "budget (mode s) \<le> effective_cycles s + n")
    case False
    with sm(1) have "mode s' = mode s" "line_y s' = effective_line s" by simp_all
    with ok en' sm(4) show ?thesis by (simp add: running_def line_mode_ok_def)
  next
    case True
    with sm(1) have "advance_ml (mode s) (effective_line s) = (mode s', line_y s')" by simp
    from advance_ml_cycle(2) [OF ok this] en' sm(4) show ?thesis
      by (simp add: running_def line_mode_ok_def)
  qed
qed

lemma running_consistent: "running s \<Longrightarrow> consistent_start s"
  by (simp add: running_def consistent_start_def)

lemma reset_consistent:
  "if previously_disabled (reset True s) then mode (reset True s) = HBlank
   else line_mode_ok (reset True s)"
  by (simp add: reset_def line_mode_ok_def)

lemma post_boot_consistent:
  "if previously_disabled (set_post_boot_state (reset True s))
   then mode (set_post_boot_state (reset True s)) = HBlank
   else line_mode_ok (set_post_boot_state (reset True s))"
  by (simp add: reset_def set_post_boot_state_def line_mode_ok_def)

lemma step_keeps_consistent:
  assumes c: "if previously_disabled s then mode s = HBlank else line_mode_ok s"
    and st: "step ct n s = Some (s', q)"
  shows "if previously_disabled s' then mode s' = HBlank else line_mode_ok s'"
proof (cases "lcd_control s AND DisplayEnable = 0")
  case True
  with st have "previously_disabled s' \<and> mode s' = HBlank"
    by (auto simp: step_def set_stat_def Let_def)
  then show ?thesis by simp
next
  case False
  with c have "consistent_start s" by (simp add: consistent_start_def)
  from step_cycle(1) [OF this st] show ?thesis by (simp add: running_def)
qed

section \<open>Calls that make no transition\<close>

lemma switch_not_due: "\<not> due s \<Longrightarrow> switch_mode ct a s = Some (s, [])"
  by (cases "mode s")
     (simp_all add: due_def switch_HBlank switch_VBlank switch_OAMSearch switch_DrawScanline)

lemma step_idle:
  assumes "lcd_control s AND DisplayEnable \<noteq> 0" "\<not> due (enter n s)"
  shows "step ct n s = Some (leave (\<not> stat_any s) (enter n s))"
  by (simp add: step_enabled [OF assms(1)] switch_not_due [OF assms(2)])

lemma leave_status_idem:
  assumes "status t = leave_status s" "mode t = mode s" "line_y t = line_y s"
    "line_y_compare t = line_y_compare s"
  shows "leave_status t = leave_status s"
proof (rule word8_parts)
  show "leave_status t AND 0xF8 = leave_status s AND 0xF8"
    by (simp add: leave_status_high [of t] assms(1))
  show "leave_status t AND 0x04 = leave_status s AND 0x04"
    by (simp add: leave_status_lyc assms)
  show "leave_status t AND 0x03 = leave_status s AND 0x03"
    by (simp add: leave_status_mode assms)
qed

lemma settled_after_leave:
  assumes "lcd_control s AND DisplayEnable \<noteq> 0" "\<not> previously_disabled s"
  shows "settled (fst (leave a s))"
  using assms
  by (simp add: leave_eq settled_def
      leave_status_idem [where s = s and t = "s\<lparr>status := leave_status s,
        window_draw_flag := window_y s = line_y s \<or> window_draw_flag s\<rparr>"])

lemma settled_quiet:
  assumes "settled s"
  shows "snd (leave (\<not> stat_any s) s) = []"
proof (cases "line_y s = line_y_compare s \<and> check_stat EnableLYCandLYInt s")
  case False
  then show ?thesis by (auto simp: leave_eq)
next
  case True
  from assms have "status s = leave_status s" by (simp add: settled_def)
  then have "status s AND 0x04 = (if line_y s = line_y_compare s then 0x04 else 0)"
    using leave_status_lyc [of s] by simp
  with True have "check_stat LYCandLYCompareType s"
    by (simp add: check_stat_def flag_defs)
  with True have "stat_any s" by (simp add: stat_any_iff)
  then show ?thesis by (simp add: leave_eq)
qed

lemma budget_small: "unat (budget m) < 2 ^ 32" "unat (budget m) \<le> 456"
  by (cases m; simp)+

lemma not_due_iff:
  assumes "unat c + unat n < unat (budget (mode s))"
  shows "\<not> due (s\<lparr>cycles := c + n\<rparr>)"
proof -
  from assms budget_small(1) [of "mode s"] have "unat c + unat n < 2 ^ 32" by simp
  then have "unat (c + n) = unat c + unat n" by (simp add: unat_add_lem [THEN iffD1])
  with assms show ?thesis by (simp add: due_def word_le_nat_alt)
qed

lemma leave_status_cycles [simp]: "leave_status (s\<lparr>cycles := c\<rparr>) = leave_status s"
  by (simp add: leave_status_def)

lemma step_idle_settled:
  assumes st: "settled s" and b: "unat (cycles s) + unat m < unat (budget (mode s))"
  shows "step ct m s = Some (s\<lparr>cycles := cycles s + m\<rparr>, [])"
proof -
  from st have en: "lcd_control s AND DisplayEnable \<noteq> 0" and pd: "\<not> previously_disabled s"
    and fx: "leave_status s = status s"
    and w: "window_y s = line_y s \<or> window_draw_flag s \<longleftrightarrow> window_draw_flag s"
    by (auto simp: settled_def split: if_splits)
  from pd have e: "enter m s = s\<lparr>cycles := cycles s + m\<rparr>" by (simp add: enter_def)
  from b have nd: "\<not> due (enter m s)" unfolding e by (rule not_due_iff)
  have q: "snd (leave (\<not> stat_any s) (s\<lparr>cycles := cycles s + m\<rparr>)) = []"
    using settled_quiet [OF st] by (simp add: leave_eq check_stat_def)
  have f: "fst (leave (\<not> stat_any s) (s\<lparr>cycles := cycles s + m\<rparr>)) = s\<lparr>cycles := cycles s + m\<rparr>"
    by (simp add: leave_eq fx w)
  show ?thesis
    unfolding step_idle [OF en nd] e using q f by (simp add: prod_eq_iff)
qed

lemma settled_cycles [simp]: "settled (s\<lparr>cycles := c\<rparr>) = settled s"
  by (simp add: settled_def)

lemma repeat_idle:
  "settled s \<Longrightarrow> unat (cycles s) + k < unat (budget (mode s)) \<Longrightarrow>
   repeat_step ct k s = Some (s\<lparr>cycles := cycles s + of_nat k\<rparr>, [])"
proof (induction k arbitrary: s)
  case 0
  then show ?case by simp
next
  case (Suc k)
  from Suc.prems(2) have b1: "unat (cycles s) + unat (1 :: u32) < unat (budget (mode s))"
    by simp
  note s1 = step_idle_settled [OF Suc.prems(1) b1, of ct]
  let ?s1 = "s\<lparr>cycles := cycles s + 1\<rparr>"
  from Suc.prems(2) budget_small(1) [of "mode s"] have "unat (cycles s) + 1 < 2 ^ 32" by simp
  then have "unat (cycles s + 1) = unat (cycles s) + 1"
    using unat_add_lem [of "cycles s" 1] by simp
  with Suc.prems(2) have b: "unat (cycles ?s1) + k < unat (budget (mode ?s1))" by simp
  from Suc.prems(1) have "settled ?s1" by simp
  from Suc.IH [OF this b] s1 show ?case by (simp add: add.assoc add.commute)
qed

lemma enter_not_due:
  assumes "unat (if previously_disabled s then 0 else cycles s) + unat m < unat (budget (mode s))"
  shows "\<not> due (enter m s)"
proof (cases "previously_disabled s")
  case True
  with assms have "unat (0 :: u32) + unat m
      < unat (budget (mode ((reset False s)\<lparr>previously_disabled := False\<rparr>)))"
    by (simp add: reset_def)
  from not_due_iff [OF this] True show ?thesis by (simp add: enter_def reset_def)
next
  case False
  with assms have "unat (cycles s) + unat m < unat (budget (mode s))" by simp
  from not_due_iff [OF this] False show ?thesis by (simp add: enter_def)
qed

lemma leave_cycles:
  "leave a (s\<lparr>cycles := c\<rparr>) = ((fst (leave a s))\<lparr>cycles := c\<rparr>, snd (leave a s))"
  by (simp add: leave_eq check_stat_def)

subsection \<open>The cycle count only matters through the budget\<close>

text \<open>
  The compositor, the scan and the tail of \<^verbatim>\<open>step\<close> never read the cycle count, so two
  calls that both use up the budget of the mode differ in the remaining cycles only.
  With that, single cycles can be compared with one call across one transition.
\<close>

lemma for_loop_commute:
  assumes "\<And>i x. body i (h x) = map_option h (body i x)"
  shows "for_loop i hi body (h x) = map_option h (for_loop i hi body x)"
  using assms
proof (induction i hi body x rule: for_loop.induct)
  case (1 i hi body s)
  note c = "1.prems" [of i s]
  show ?case
  proof (cases "i < hi")
    case False
    then show ?thesis by (simp add: for_loop.simps [of i hi])
  next
    case True
    show ?thesis
    proof (cases "body i s")
      case None
      with c have "body i (h s) = None" by simp
      with True None show ?thesis by (simp add: for_loop.simps [of i hi])
    next
      case (Some s1)
      with c have "body i (h s) = Some (h s1)" by simp
      with True Some "1.IH" [OF True Some "1.prems"] show ?thesis
        by (simp add: for_loop.simps [of i hi])
    qed
  qed
qed

lemma bg_pixel_cycles:
  "bg_pixel ct tma tda i (s\<lparr>cycles := c\<rparr>) = map_option (cycles_update (\<lambda>_. c)) (bg_pixel ct tma tda i s)"
  by (auto simp: bg_pixel_def Let_def split: Option.bind_split)

lemma render_bg_layer_cycles:
  "render_bg_layer ct (s\<lparr>cycles := c\<rparr>) = map_option (cycles_update (\<lambda>_. c)) (render_bg_layer ct s)"
proof -
  have "for_loop 0 160 (bg_pixel ct tma tda) (cycles_update (\<lambda>_. c) s)
      = map_option (cycles_update (\<lambda>_. c)) (for_loop 0 160 (bg_pixel ct tma tda) s)" for tma tda
    by (rule for_loop_commute [where h = "cycles_update (\<lambda>_. c)"]) (rule bg_pixel_cycles)
  then show ?thesis by (simp add: render_bg_layer_def Let_def)
qed

lemma window_pixel_cycles:
  "window_pixel ct tma tda i (apfst (cycles_update (\<lambda>_. c)) sa)
     = map_option (apfst (cycles_update (\<lambda>_. c))) (window_pixel ct tma tda i sa)"
  by (cases sa) (auto simp: window_pixel_def Let_def split: Option.bind_split)

lemma render_window_layer_cycles:
  "render_window_layer ct (s\<lparr>cycles := c\<rparr>)
     = map_option (cycles_update (\<lambda>_. c)) (render_window_layer ct s)"
proof -
  have l: "for_loop 0 LCD_WIDTH (window_pixel ct tma tda) (s\<lparr>cycles := c\<rparr>, 0)
      = map_option (apfst (cycles_update (\<lambda>_. c))) (for_loop 0 LCD_WIDTH (window_pixel ct tma tda) (s, 0))"
    for tma tda
  proof -
    have "for_loop 0 LCD_WIDTH (window_pixel ct tma tda) (apfst (cycles_update (\<lambda>_. c)) (s, 0))
      = map_option (apfst (cycles_update (\<lambda>_. c))) (for_loop 0 LCD_WIDTH (window_pixel ct tma tda) (s, 0))"
      by (rule for_loop_commute [where h = "apfst (cycles_update (\<lambda>_. c))"])
         (rule window_pixel_cycles)
    then show ?thesis by simp
  qed
  have g: "X \<bind> (\<lambda>x. Some ((fst x)\<lparr>cycles := c, window_line_y := window_line_y (fst x) + snd x\<rparr>))
      = X \<bind> (\<lambda>x. Some ((fst x)\<lparr>window_line_y := window_line_y (fst x) + snd x, cycles := c\<rparr>))"
    for X :: "(ppu \<times> u8) option"
    by (cases X) simp_all
  show ?thesis
    unfolding render_window_layer_def Let_def
    by (simp add: l map_option_bind comp_def case_prod_beta bind_map_option g cong: if_cong)
qed

lemma sprite_pixel_cycles:
  "sprite_pixel ct ob pal ti ax x (s\<lparr>cycles := c\<rparr>)
     = map_option (cycles_update (\<lambda>_. c)) (sprite_pixel ct ob pal ti ax x s)"
  by (auto simp: sprite_pixel_def Let_def split: Option.bind_split)

lemma sprite_object_cycles:
  "sprite_object ct h i (s\<lparr>cycles := c\<rparr>)
     = map_option (cycles_update (\<lambda>_. c)) (sprite_object ct h i s)"
proof -
  have l: "for_loop 0 8 (sprite_pixel ct ob pal ti ax) (cycles_update (\<lambda>_. c) t)
      = map_option (cycles_update (\<lambda>_. c)) (for_loop 0 8 (sprite_pixel ct ob pal ti ax) t)"
    for ob pal ti ax t
    by (rule for_loop_commute [where h = "cycles_update (\<lambda>_. c)"]) (rule sprite_pixel_cycles)
  have l2: "for_loop 0 8 (sprite_pixel ct ob pal ti ax) (s\<lparr>cycles := c, objects_on_scanline := f\<rparr>)
      = map_option (cycles_update (\<lambda>_. c))
          (for_loop 0 8 (sprite_pixel ct ob pal ti ax) (s\<lparr>objects_on_scanline := f\<rparr>))"
    for ob pal ti ax f
  proof -
    have "s\<lparr>cycles := c, objects_on_scanline := f\<rparr> = (s\<lparr>objects_on_scanline := f\<rparr>)\<lparr>cycles := c\<rparr>"
      by simp
    then show ?thesis by (simp only: l)
  qed
  show ?thesis
  proof (cases "rd MAX_OBJECTS (objects_on_scanline s) (num_obj_on_scanline s - 1 - i)")
    case None
    then show ?thesis by (simp add: sprite_object_def)
  next
    case (Some ob)
    then show ?thesis
      by (simp add: sprite_object_def Let_def l2 cong: if_cong)
  qed
qed

lemma render_sprite_layer_cycles:
  "render_sprite_layer ct (s\<lparr>cycles := c\<rparr>)
     = map_option (cycles_update (\<lambda>_. c)) (render_sprite_layer ct s)"
proof -
  have "for_loop 0 k (sprite_object ct h) (cycles_update (\<lambda>_. c) s)
      = map_option (cycles_update (\<lambda>_. c)) (for_loop 0 k (sprite_object ct h) s)" for h k
    by (rule for_loop_commute [where h = "cycles_update (\<lambda>_. c)"]) (rule sprite_object_cycles)
  then show ?thesis by (simp add: render_sprite_layer_def Let_def)
qed

lemma render_scanline_cycles:
  "render_scanline ct (s\<lparr>cycles := c\<rparr>)
     = map_option (cycles_update (\<lambda>_. c)) (render_scanline ct s)"
proof (cases "render_bg_layer ct s")
  case None
  then show ?thesis by (simp add: render_scanline_def render_bg_layer_cycles)
next
  case (Some s1)
  note b = Some
  show ?thesis
  proof (cases "if render_flags s1 AND Window \<noteq> 0 then render_window_layer ct s1 else Some s1")
    case None
    then show ?thesis
      by (simp add: render_scanline_def render_bg_layer_cycles b render_window_layer_cycles
          split: if_splits)
  next
    case (Some s2)
    then show ?thesis
      by (auto simp: render_scanline_def render_bg_layer_cycles b render_window_layer_cycles
          render_sprite_layer_cycles split: if_splits)
  qed
qed

lemma scan_oam_cycles: "scan_oam (s\<lparr>cycles := c\<rparr>) = (scan_oam s)\<lparr>cycles := c\<rparr>"
  by (simp add: scan_oam_closed Let_def selected_def)

lemma check_stat_cycles: "check_stat f (s\<lparr>cycles := c\<rparr>) = check_stat f s"
  by (simp add: check_stat_def)

lemma switch_due_cycles:
  assumes "budget (mode s) \<le> x" "budget (mode s) \<le> y"
  shows "switch_mode ct a (s\<lparr>cycles := y\<rparr>)
     = map_option (\<lambda>(t, q). (t\<lparr>cycles := y - budget (mode s)\<rparr>, q))
         (switch_mode ct a (s\<lparr>cycles := x\<rparr>))"
proof (cases "mode s")
  case HBlank
  with assms show ?thesis by (simp add: switch_HBlank check_stat_cycles)
next
  case VBlank
  with assms show ?thesis by (simp add: switch_VBlank check_stat_cycles)
next
  case OAMSearch
  with assms show ?thesis by (simp add: switch_OAMSearch scan_oam_cycles)
next
  case DrawScanline
  have r: "render_scanline ct (s\<lparr>cycles := z, mode := HBlank\<rparr>)
      = map_option (cycles_update (\<lambda>_. z)) (render_scanline ct (s\<lparr>mode := HBlank\<rparr>))" for z
  proof -
    have "s\<lparr>cycles := z, mode := HBlank\<rparr> = (s\<lparr>mode := HBlank\<rparr>)\<lparr>cycles := z\<rparr>" by simp
    then show ?thesis by (simp only: render_scanline_cycles)
  qed
  from DrawScanline assms show ?thesis
    by (cases "render_scanline ct (s\<lparr>mode := HBlank\<rparr>)") (simp_all add: switch_DrawScanline r check_stat_cycles)
qed

lemma stat_any_cycles: "stat_any (s\<lparr>cycles := c\<rparr>) = stat_any s"
  by (simp add: stat_any_def check_stat_cycles)

lemma step_due_shift:
  assumes en: "lcd_control s AND DisplayEnable \<noteq> 0" and npd: "\<not> previously_disabled s"
    and d1: "budget (mode s) \<le> cycles s + m" and d2: "budget (mode s) \<le> cycles s + n"
  shows "step ct n s = map_option (\<lambda>(t, q). (t\<lparr>cycles := cycles s + n - budget (mode s)\<rparr>, q))
            (step ct m s)"
proof -
  have e: "enter k s = s\<lparr>cycles := cycles s + k\<rparr>" for k using npd by (simp add: enter_def)
  note sw = switch_due_cycles [of s "cycles s + m" "cycles s + n" ct "\<not> stat_any s", OF d1 d2]
  show ?thesis
    unfolding step_enabled [OF en] e sw
    by (cases "switch_mode ct (\<not> stat_any s) (s\<lparr>cycles := cycles s + m\<rparr>)")
       (auto simp: leave_cycles stat_any_cycles)
qed

lemma step_same_total:
  assumes "\<not> previously_disabled s" "x + n = y + m" "lcd_control s AND DisplayEnable \<noteq> 0"
  shows "step ct n (s\<lparr>cycles := x\<rparr>) = step ct m (s\<lparr>cycles := y\<rparr>)"
proof -
  have e: "enter k (s\<lparr>cycles := z\<rparr>) = s\<lparr>cycles := z + k\<rparr>" for k z
    using assms(1) by (simp add: enter_def)
  have a: "(if stat_any t then False else True) = (\<not> stat_any t)" for t by simp
  show ?thesis unfolding step_unfold Let_def e a by (simp add: assms(2,3) stat_any_cycles)
qed

lemma repeat_split:
  "repeat_step ct (j + k) s =
     (case repeat_step ct j s of
        None \<Rightarrow> None
      | Some (s1, q1) \<Rightarrow>
          (case repeat_step ct k s1 of None \<Rightarrow> None | Some (s2, q2) \<Rightarrow> Some (s2, q1 @ q2)))"
proof (induction j arbitrary: s)
  case 0
  show ?case by (cases "repeat_step ct k s") auto
next
  case (Suc j)
  show ?case
  proof (cases "step ct 1 s")
    case None
    then show ?thesis by simp
  next
    case (Some r)
    obtain s1 q1 where r: "r = (s1, q1)" by (cases r)
    show ?thesis
      using Some r Suc [of s1]
      by (auto split: option.splits)
  qed
qed

lemma step_None:
  assumes "step ct n s = None"
  shows "mode s = DrawScanline \<and> budget (mode s) \<le> effective_cycles s + n"
proof -
  have en: "lcd_control s AND DisplayEnable \<noteq> 0"
    using assms by (auto simp: step_def Let_def)
  from assms have sw: "switch_mode ct (\<not> stat_any s) (enter n s) = None"
    by (auto simp: step_enabled [OF en] split: option.splits)
  then have "due (enter n s)" using switch_not_due [of "enter n s" ct "\<not> stat_any s"] by auto
  moreover have "mode (enter n s) = DrawScanline"
    using sw by (cases "mode (enter n s)")
      (simp_all add: switch_HBlank switch_VBlank switch_OAMSearch)
  ultimately show ?thesis by (simp add: due_def enter_fields effective_cycles_def)
qed

lemma step_settled:
  assumes en: "lcd_control s AND DisplayEnable \<noteq> 0" and st: "step ct n s = Some (t, q)"
  shows "settled t"
proof -
  from st obtain s3 q1 where sw: "switch_mode ct (\<not> stat_any s) (enter n s) = Some (s3, q1)"
    and t: "t = fst (leave (\<not> stat_any s) s3)"
    by (auto simp: step_enabled [OF en] split: option.splits)
  note sm = switch_mode_summary [OF sw]
  from sm(3) enter_fields(3) [of n s] en have "lcd_control s3 AND DisplayEnable \<noteq> 0"
    by (simp add: config_def)
  moreover from sm(5) have "\<not> previously_disabled s3" by (simp add: enter_fields)
  ultimately show ?thesis unfolding t by (rule settled_after_leave)
qed

lemma transition_then_idle:
  assumes en: "lcd_control s AND DisplayEnable \<noteq> 0" and npd: "\<not> previously_disabled s"
    and n: "unat n = Suc k"
    and d: "unat (budget (mode s)) \<le> unat (cycles s) + 1"
    and b: "unat (cycles s) + unat n
            < unat (budget (mode s)) + unat (budget (fst (advance_ml (mode s) (line_y s))))"
  shows "repeat_step ct (Suc k) s = step ct n s"
proof -
  let ?c = "cycles s" and ?B = "budget (mode s)"
  from b budget_small(2) [of "mode s"] budget_small(2) [of "fst (advance_ml (mode s) (line_y s))"]
  have small: "unat ?c + unat n < 2 ^ 32" by simp
  with n have "unat ?c + unat (1 :: u32) < 2 ^ 32" by simp
  then have u1: "unat (?c + 1) = unat ?c + 1" using unat_add_lem [of ?c 1] by simp
  from small have un: "unat (?c + n) = unat ?c + unat n" using unat_add_lem [of ?c n] by simp
  have d1: "?B \<le> ?c + 1" using d u1 by (simp add: word_le_nat_alt)
  have d2: "?B \<le> ?c + n" using d n un by (simp add: word_le_nat_alt)
  note sh = step_due_shift [OF en npd d1 d2, of ct]
  show ?thesis
  proof (cases "step ct 1 s")
    case None
    then show ?thesis by (simp add: sh)
  next
    case (Some r)
    obtain t q where r: "r = (t, q)" by (cases r)
    note st = Some [unfolded r]
    note sm = step_summary [OF en st]
    have e1: "enter 1 s = s\<lparr>cycles := ?c + 1\<rparr>" using npd by (simp add: enter_def)
    have due1: "due (enter 1 s)" using d1 by (simp add: e1 due_def)
    from sm(1) due1 npd have "(mode t, line_y t) = advance_ml (mode s) (line_y s)"
      by (simp add: enter_fields)
    then have mt: "mode t = fst (advance_ml (mode s) (line_y s))" by (metis fst_conv)
    have cyc: "cycles t = ?c + 1 - ?B" using sm(2) due1 by (simp add: e1)
    have ut: "unat (cycles t) = unat ?c + 1 - unat ?B"
      using d1 u1 by (simp add: cyc unat_sub)
    have bk: "unat (cycles t) + k < unat (budget (mode t))"
      using b n d by (simp add: ut mt)
    note ri = repeat_idle [OF step_settled [OF en st] bk, of ct]
    have "n = of_nat (unat n)" by simp
    then have neq: "n = 1 + of_nat k" unfolding n by simp
    have "repeat_step ct (Suc k) s = Some (t\<lparr>cycles := cycles t + of_nat k\<rparr>, q)"
      by (simp add: st ri)
    also have "cycles t + of_nat k = ?c + n - ?B" by (simp add: cyc neq)
    also have "Some (t\<lparr>cycles := ?c + n - ?B\<rparr>, q) = step ct n s" by (simp add: sh st)
    finally show ?thesis .
  qed
qed

lemma repeat_no_transition:
  assumes en: "lcd_control s AND DisplayEnable \<noteq> 0" and n: "1 \<le> unat n"
    and b: "unat (effective_cycles s) + unat n < unat (budget (mode s))"
  shows "repeat_step ct (unat n) s = step ct n s"
proof -
  define c0 where "c0 = effective_cycles s"
  define a where "a = (\<not> stat_any s)"
  have c0: "c0 = (if previously_disabled s then 0 else cycles s)"
    by (simp add: c0_def effective_cycles_def)
  from n obtain k where k: "unat n = Suc k" by (cases "unat n") simp_all
  have "n = of_nat (unat n)" by simp
  then have n_eq: "n = 1 + of_nat k" unfolding k by simp
  from b budget_small(1) [of "mode s"] have lt: "unat c0 + unat n < 2 ^ 32"
    by (simp add: c0_def)
  have b1: "unat c0 + unat (1 :: u32) < unat (budget (mode s))"
    using b k by (simp add: c0_def)
  have nd1: "\<not> due (enter 1 s)" using b1 unfolding c0 by (rule enter_not_due)
  have ndn: "\<not> due (enter n s)" using b unfolding effective_cycles_def by (rule enter_not_due)
  have s1: "step ct 1 s = Some (leave a (enter 1 s))"
    unfolding a_def by (rule step_idle [OF en nd1])
  have sn: "step ct n s = Some (leave a (enter n s))"
    unfolding a_def by (rule step_idle [OF en ndn])
  let ?t1 = "fst (leave a (enter 1 s))"
  have e1: "lcd_control (enter 1 s) AND DisplayEnable \<noteq> 0"
    using en enter_fields(3) [of 1 s] by (simp add: config_def)
  have st1: "settled ?t1"
    by (rule settled_after_leave [OF e1]) (simp add: enter_fields)
  have c1: "cycles ?t1 = c0 + 1" "mode ?t1 = mode s"
    by (simp_all add: leave_eq enter_fields c0)
  from lt k have "unat c0 + 1 < 2 ^ 32" by simp
  then have u1: "unat (c0 + 1) = unat c0 + 1" using unat_add_lem [of c0 1] by simp
  have bk: "unat (cycles ?t1) + k < unat (budget (mode ?t1))"
    using b k by (simp add: c1 u1 c0_def [symmetric])
  note r = repeat_idle [OF st1 bk, of ct]
  have en_eq: "enter n s = (enter 1 s)\<lparr>cycles := c0 + 1 + of_nat k\<rparr>"
    by (simp add: enter_def reset_def Let_def n_eq c0 add.assoc)
  have "repeat_step ct (unat n) s
      = Some (?t1\<lparr>cycles := c0 + 1 + of_nat k\<rparr>, snd (leave a (enter 1 s)))"
    unfolding k by (simp add: s1 case_prod_beta r c1)
  also have "\<dots> = step ct n s"
    unfolding sn en_eq leave_cycles by simp
  finally show ?thesis .
qed

lemma repeat_settled_transition:
  assumes st: "settled s" and n: "1 \<le> unat n"
    and lo: "unat (cycles s) + 1 < unat (budget (mode s))"
    and d: "unat (budget (mode s)) \<le> unat (cycles s) + unat n"
    and b: "unat (cycles s) + unat n
            < unat (budget (mode s)) + unat (budget (fst (advance_ml (mode s) (line_y s))))"
  shows "repeat_step ct (unat n) s = step ct n s"
proof -
  let ?c = "cycles s" and ?B = "budget (mode s)"
  from st have en: "lcd_control s AND DisplayEnable \<noteq> 0" and npd: "\<not> previously_disabled s"
    by (simp_all add: settled_def)
  define j where "j = unat ?B - unat ?c - 1"
  define k where "k = unat n - j - 1"
  have k: "unat n = j + Suc k" using lo d unfolding j_def k_def by arith
  define s' where "s' = s\<lparr>cycles := ?c + of_nat j\<rparr>"
  define n' :: u32 where "n' = of_nat (Suc k)"
  have jb: "unat ?c + j < unat ?B" using lo by (simp add: j_def)
  note ri = repeat_idle [OF st jb, of ct, folded s'_def]
  from jb budget_small(1) [of "mode s"] have jl: "unat ?c + j < 2 ^ 32" by simp
  then have j32: "unat (of_nat j :: u32) = j" by (simp add: unat_of_nat)
  with jl have uj: "unat (?c + of_nat j) = unat ?c + j"
    using unat_add_lem [of ?c "of_nat j"] by simp
  have "Suc k \<le> unat n" using k by simp
  also have "\<dots> < 2 ^ 32" using unsigned_less [of n] by simp
  finally have lt: "Suc k < 2 ^ 32" .
  have "unat n' = Suc k mod 2 ^ LENGTH(32)" unfolding n'_def by (rule unat_of_nat)
  with lt have un': "unat n' = Suc k" by simp
  have "n = of_nat (unat n)" by simp
  then have neq: "n = of_nat j + n'" unfolding k n'_def by simp
  have cs': "unat (cycles s') = unat ?c + j" by (simp add: s'_def uj)
  have ms': "mode s' = mode s" "line_y s' = line_y s" by (simp_all add: s'_def)
  have tr: "repeat_step ct (Suc k) s' = step ct n' s'"
  proof (rule transition_then_idle [OF _ _ un'])
    show "lcd_control s' AND DisplayEnable \<noteq> 0" using en by (simp add: s'_def)
    show "\<not> previously_disabled s'" using npd by (simp add: s'_def)
    show "unat (budget (mode s')) \<le> unat (cycles s') + 1"
      using lo unfolding cs' ms' j_def by arith
    show "unat (cycles s') + unat n'
        < unat (budget (mode s')) + unat (budget (fst (advance_ml (mode s') (line_y s'))))"
      using b k unfolding cs' ms' un' by simp
  qed
  have "step ct n' s' = step ct n (s\<lparr>cycles := ?c\<rparr>)"
    unfolding s'_def by (rule step_same_total [OF npd _ en]) (simp add: neq)
  then have same: "step ct n' s' = step ct n s" by simp
  have "repeat_step ct (unat n) s
      = (case step ct n s of None \<Rightarrow> None | Some (s2, q2) \<Rightarrow> Some (s2, [] @ q2))"
    unfolding k repeat_split ri by (simp add: tr same del: repeat_step.simps)
  then show ?thesis by (cases "step ct n s") auto
qed

section \<open>The compositor pixel by pixel\<close>

lemma for_loop_total:
  assumes "\<And>i s. lo \<le> i \<Longrightarrow> i < hi \<Longrightarrow> P i s \<Longrightarrow> \<exists>s'. body i s = Some s' \<and> P (Suc i) s'"
    and "P lo s" and "lo \<le> hi"
  shows "\<exists>s'. for_loop lo hi body s = Some s' \<and> P hi s'"
  using assms
proof (induction lo hi body s rule: for_loop.induct)
  case (1 i hi body s)
  show ?case
  proof (cases "i < hi")
    case False
    with "1.prems"(3) have "i = hi" by simp
    with "1.prems"(2) show ?thesis by (subst for_loop.simps) simp
  next
    case True
    from "1.prems"(1) [OF le_refl True "1.prems"(2)]
    obtain s1 where b: "body i s = Some s1" and p: "P (Suc i) s1" by blast
    have "\<exists>s'. for_loop (Suc i) hi body s1 = Some s' \<and> P hi s'"
    proof (rule "1.IH" [OF True b _ p])
      show "Suc i \<le> hi" using True by simp
    next
      fix j t assume "Suc i \<le> j" "j < hi" "P j t"
      then show "\<exists>s'. body j t = Some s' \<and> P (Suc j) s'"
        using "1.prems"(1) [of j t] by simp
    qed
    then show ?thesis using True b by (subst for_loop.simps) simp
  qed
qed

lemma put_pixel_Some:
  "p < LCD_WIDTH * LCD_HEIGHT \<Longrightarrow> \<exists>fb'. put_pixel fb p c = Some fb'"
  by (cases c) (auto simp: put_pixel_def COLOR_DEPTH_def)

lemma get_put_pixel:
  "put_pixel fb p c = Some fb' \<Longrightarrow> get_pixel fb' q = (if q = p then c else get_pixel fb q)"
  by (cases c) (auto simp: put_pixel_def get_pixel_def COLOR_DEPTH_def split: if_splits)

lemma tile_map_index_bound:
  assumes "tma = 0x9c00 \<or> tma = 0x9800"
  shows "nat ((tma AND 0x1FFF) + ((int (unat (x :: u8)) div 8) AND 31)
              + ((int (unat (y :: u8)) div 8) AND 31) * 32) < VRAM_SIZE"
proof -
  have a: "0 \<le> (int (unat x) div 8) AND 31" "(int (unat x) div 8) AND 31 \<le> 31"
    "0 \<le> (int (unat y) div 8) AND 31" "(int (unat y) div 8) AND 31 \<le> 31"
    by simp_all
  have t: "tma AND 0x1FFF \<le> 0x1C00" "0 \<le> tma AND 0x1FFF"
    using assms by auto
  from a t show ?thesis unfolding VRAM_SIZE_def by linarith
qed

lemma tile_row_index_bound:
  assumes "tda = 0x8000 \<or> tda = 0x8800"
  shows "tile_row_index tda tid y + 1 < VRAM_SIZE"
proof -
  define r where "r = int (unat (y AND 7)) * 2"
  have "uint (y AND 7) \<le> 7"
    using word_and_le1 [of y 7] by (simp add: word_le_def)
  then have r: "0 \<le> r" "r \<le> 14" by (simp_all add: r_def)
  have s: "- 128 \<le> sint tid" "sint tid < 128"
    using sint_ge [of tid] sint_lt [of tid] by simp_all
  have "uint tid < 256" using uint_lt2p [of tid] by simp
  then have u: "0 \<le> int (unat tid)" "int (unat tid) < 256" by simp_all
  from assms show ?thesis
  proof
    assume tda: "tda = 0x8000"
    define e where "e = int (unat tid) * 16 + r"
    from u r have e: "0 \<le> e" "e < 8191" by (simp_all add: e_def)
    then have "e mod 65536 = e" by simp
    with e have "nat (e mod 65536) + 1 < 8192" by simp
    then show ?thesis
      unfolding tile_row_index_def VRAM_SIZE_def tda e_def r_def by simp
  next
    assume tda: "tda = 0x8800"
    define e where "e = 4096 + sint tid * 16 + r"
    from s r have e: "0 \<le> e" "e < 8191" by (simp_all add: e_def)
    then have "e mod 65536 = e" by simp
    with e have "nat (e mod 65536) + 1 < 8192" by simp
    then show ?thesis
      unfolding tile_row_index_def VRAM_SIZE_def tda e_def r_def by simp
  qed
qed

lemma line_pixel_bound:
  "unat (ly :: u8) < 144 \<Longrightarrow> i < 160 \<Longrightarrow> unat ly * LCD_WIDTH + i < LCD_WIDTH * LCD_HEIGHT"
  by (simp add: LCD_WIDTH_def LCD_HEIGHT_def)

lemma bg_pixel_result:
  assumes ly: "unat (line_y s) < 144" and i: "i < 160"
    and tma: "tma = 0x9c00 \<or> tma = 0x9800" and tda: "tda = 0x8000 \<or> tda = 0x8800"
  shows "\<exists>v c fb. put_pixel (framebuffer s) (unat (line_y s) * LCD_WIDTH + i) c = Some fb
      \<and> bg_pixel ct tma tda i s =
          Some (s\<lparr>bg_color_table := (bg_color_table s)(unat (line_y s) * LCD_WIDTH + i := v),
                  framebuffer := fb\<rparr>)
      \<and> (if bg_disabled s then v = 0 \<and> c = ct (unat (background_palette s AND 3)) else True)"
proof -
  define x_offset where "x_offset = screen_scroll_x s + of_nat i"
  define y_offset where "y_offset = screen_scroll_y s + line_y s"
  define k where "k = nat ((tma AND 0x1FFF) + ((int (unat x_offset) div 8) AND 31)
                + ((int (unat y_offset) div 8) AND 31) * 32)"
  define tile_id where "tile_id = vram s k"
  define ti where "ti = tile_row_index tda tile_id y_offset"
  define pixel where "pixel = pixel_of (vram s ti) (vram s (ti + 1)) (7 - unat (x_offset AND 7))"
  define c where "c = (if bg_disabled s then ct (unat (background_palette s AND 3))
                       else shade ct (background_palette s) pixel)"
  define v where "v = (if bg_disabled s then 0 else pixel)"
  define p where "p = unat (line_y s) * LCD_WIDTH + i"
  have r1: "rd VRAM_SIZE (vram s) k = Some tile_id"
    unfolding k_def tile_id_def rd_def using tile_map_index_bound [OF tma] by simp
  from tile_row_index_bound [OF tda, of tile_id y_offset]
  have b: "ti + 1 < VRAM_SIZE" "ti < VRAM_SIZE" by (simp_all add: ti_def)
  have r2: "rd VRAM_SIZE (vram s) ti = Some (vram s ti)"
    "rd VRAM_SIZE (vram s) (ti + 1) = Some (vram s (ti + 1))"
    using b by (simp_all add: rd_def)
  have pb: "p < LCD_WIDTH * LCD_HEIGHT" unfolding p_def by (rule line_pixel_bound [OF ly i])
  then have w: "wr (LCD_WIDTH * LCD_HEIGHT) (bg_color_table s) p v = Some ((bg_color_table s)(p := v))"
    by (simp add: wr_def)
  from put_pixel_Some [OF pb] obtain fb where fb: "put_pixel (framebuffer s) p c = Some fb"
    by blast
  have res: "bg_pixel ct tma tda i s = Some (s\<lparr>bg_color_table := (bg_color_table s)(p := v),
                  framebuffer := fb\<rparr>)"
    unfolding bg_pixel_def Let_def x_offset_def [symmetric] y_offset_def [symmetric]
      k_def [symmetric] r1 Option.bind.simps ti_def [symmetric] r2 pixel_def [symmetric]
      bg_disabled_def [symmetric] c_def [symmetric] v_def [symmetric] p_def [symmetric] w fb
    by simp
  have "if bg_disabled s then v = 0 \<and> c = ct (unat (background_palette s AND 3)) else True"
    by (simp add: v_def c_def)
  with fb res show ?thesis
    unfolding p_def by (intro exI [of _ v] exI [of _ c] exI [of _ fb] conjI)
qed

lemma render_frame_bg_disabled: "render_frame s t \<Longrightarrow> bg_disabled t = bg_disabled s"
  by (simp add: render_frame_def bg_disabled_def)

lemma render_bg_layer_painted:
  assumes ly: "unat (line_y s) < 144"
  shows "\<exists>s'. render_bg_layer ct s = Some s' \<and> render_frame s s'
     \<and> (bg_disabled s \<longrightarrow>
          (\<forall>j<160. bg_color_table s' (unat (line_y s) * LCD_WIDTH + j) = 0
             \<and> get_pixel (framebuffer s') (unat (line_y s) * LCD_WIDTH + j)
                 = ct (unat (background_palette s AND 3))))"
proof -
  define tma :: int where "tma = (if lcd_control s AND BGTileMap \<noteq> 0 then 0x9c00 else 0x9800)"
  define tda :: int where "tda = (if lcd_control s AND BGWindowTileData \<noteq> 0 then 0x8000 else 0x8800)"
  have tma: "tma = 0x9c00 \<or> tma = 0x9800" and tda: "tda = 0x8000 \<or> tda = 0x8800"
    by (simp_all add: tma_def tda_def)
  define L where "L = unat (line_y s) * LCD_WIDTH"
  define C where "C = ct (unat (background_palette s AND 3))"
  define P where "P = (\<lambda>i t. render_frame s t
     \<and> (bg_disabled s \<longrightarrow>
          (\<forall>j<i. bg_color_table t (L + j) = 0 \<and> get_pixel (framebuffer t) (L + j) = C)))"
  have "\<exists>s'. for_loop 0 160 (bg_pixel ct tma tda) s = Some s' \<and> P 160 s'"
  proof (rule for_loop_total)
    show "P 0 s" by (simp add: P_def render_frame_refl)
    show "(0 :: nat) \<le> 160" by simp
  next
    fix i t
    assume i: "i < 160" and p: "P i t"
    from p have f: "render_frame s t" by (simp add: P_def)
    then have e: "line_y t = line_y s" "background_palette t = background_palette s"
      by (simp_all add: render_frame_def)
    from ly e have lyt: "unat (line_y t) < 144" by simp
    from bg_pixel_result [OF lyt i tma tda, of ct] obtain v c fb
      where fb: "put_pixel (framebuffer t) (L + i) c = Some fb"
        and r: "bg_pixel ct tma tda i t =
          Some (t\<lparr>bg_color_table := (bg_color_table t)(L + i := v), framebuffer := fb\<rparr>)"
        and d: "if bg_disabled t then v = 0 \<and> c = C else True"
      unfolding e L_def C_def by blast
    let ?t' = "t\<lparr>bg_color_table := (bg_color_table t)(L + i := v), framebuffer := fb\<rparr>"
    have f': "render_frame s ?t'" using f by (simp add: render_frame_def)
    have "bg_disabled s \<longrightarrow>
          (\<forall>j<Suc i. bg_color_table ?t' (L + j) = 0 \<and> get_pixel (framebuffer ?t') (L + j) = C)"
    proof (intro impI allI)
      fix j assume ds: "bg_disabled s" and j: "j < Suc i"
      from ds d render_frame_bg_disabled [OF f] have vc: "v = 0" "c = C" by simp_all
      from p ds have old: "\<forall>j<i. bg_color_table t (L + j) = 0 \<and> get_pixel (framebuffer t) (L + j) = C"
        by (simp add: P_def)
      show "bg_color_table ?t' (L + j) = 0 \<and> get_pixel (framebuffer ?t') (L + j) = C"
      proof (cases "j = i")
        case True
        then show ?thesis using vc get_put_pixel [OF fb, of "L + i"] by simp
      next
        case False
        with j have "j < i" by simp
        with old False show ?thesis using get_put_pixel [OF fb, of "L + j"] by simp
      qed
    qed
    with f' r show "\<exists>s'. bg_pixel ct tma tda i t = Some s' \<and> P (Suc i) s'"
      by (simp add: P_def)
  qed
  then show ?thesis
    unfolding render_bg_layer_def Let_def tma_def [symmetric] tda_def [symmetric]
    by (simp add: P_def L_def C_def)
qed








lemma render_scanline_plain:
  assumes ly: "unat (line_y s) < 144"
    and w: "lcd_control s AND WindowEnable = 0" and o: "lcd_control s AND SpriteEnable = 0"
  shows "\<exists>s'. render_scanline ct s = Some s'"
proof -
  from render_bg_layer_painted [OF ly, of ct] obtain s1
    where bg: "render_bg_layer ct s = Some s1" and f: "render_frame s s1" by blast
  from f have c: "lcd_control s1 = lcd_control s" by (simp add: render_frame_def)
  have win: "render_window_layer ct s1 = Some (s1\<lparr>window_line_y := window_line_y s1 + 0\<rparr>)"
    using w c by (simp add: render_window_layer_def)
  have spr: "render_sprite_layer ct t = Some t" if "lcd_control t = lcd_control s" for t
    using o that by (simp add: render_sprite_layer_def)
  show ?thesis
    unfolding render_scanline_def bg
    by (cases "render_flags s1 AND Window \<noteq> 0") (simp_all add: win spr c)
qed

lemma step_total_plain:
  assumes en: "lcd_control s AND DisplayEnable \<noteq> 0"
    and ly: "unat (effective_line s) < 144"
    and w: "lcd_control s AND WindowEnable = 0" and o: "lcd_control s AND SpriteEnable = 0"
  shows "\<exists>s' q. step ct n s = Some (s', q)"
proof -
  let ?e = "enter n s"
  have l: "lcd_control ?e = lcd_control s" "line_y ?e = effective_line s"
    using enter_fields(3) [of n s] by (simp_all add: config_def enter_fields effective_line_def)
  have "\<exists>r. switch_mode ct a ?e = Some r" for a
  proof (cases "mode ?e")
    case HBlank
    then show ?thesis by (simp add: switch_HBlank)
  next
    case VBlank
    then show ?thesis by (simp add: switch_VBlank)
  next
    case OAMSearch
    then show ?thesis by (simp add: switch_OAMSearch)
  next
    case DrawScanline
    have "\<exists>s'. render_scanline ct (?e\<lparr>cycles := cycles ?e - 172, mode := HBlank\<rparr>) = Some s'"
      by (rule render_scanline_plain) (simp_all add: l ly w o)
    with DrawScanline show ?thesis by (auto simp: switch_DrawScanline)
  qed
  then obtain r where "switch_mode ct (\<not> stat_any s) ?e = Some r" by blast
  then show ?thesis by (cases r) (simp add: step_enabled [OF en])
qed


lemma bg_pixel_off_screen:
  assumes "144 \<le> unat (line_y s)"
  shows "bg_pixel ct tma tda 0 s = None"
proof -
  have "wr (LCD_WIDTH * LCD_HEIGHT) (bg_color_table s) (unat (line_y s) * LCD_WIDTH + 0) v = None" for v
    using assms by (simp add: wr_def LCD_WIDTH_def LCD_HEIGHT_def)
  then show ?thesis by (simp add: bg_pixel_def Let_def bind_eq_None_conv)
qed

lemma render_bg_layer_off_screen:
  "144 \<le> unat (line_y s) \<Longrightarrow> render_bg_layer ct s = None"
  by (simp add: render_bg_layer_def Let_def for_loop.simps [of 0 160] bg_pixel_off_screen)

section \<open>The claims\<close>

subsection \<open>C1: single cycles against one call\<close>

text \<open>
  Claim C1, as amended. \<^verbatim>\<open>step\<close> makes at most one mode transition in a call, however
  many cycles it is given, so calls with one cycle each can get ahead of a single call
  with their sum. What holds is this. Take a state with the display enabled and a cycle
  count \<open>N \<ge> 1\<close>, and count the accumulated cycles and the line from 0 if the soft reset
  after a disabled period is pending. Suppose at most one transition falls due within the
  \<open>N\<close> cycles: the accumulated cycles plus \<open>N\<close> stay below the budget of the current
  mode plus the budget of the mode that follows it. Suppose also that this transition
  falls due not at all, or with the first cycle, or that the state is settled, as every
  state is that \<^verbatim>\<open>step\<close> returns with the display on. Then \<open>N\<close> calls with one cycle each
  give the same result as one call with \<open>N\<close> cycles: the same state and the same requests
  in the same order, or no defined result in both cases. The one call has a defined
  result unless it is the call that draws a line, in \<^verbatim>\<open>DrawScanline\<close> with the budget
  used up.
\<close>

theorem single_cycle_steps_up_to_one_transition:
  assumes en: "lcd_control s AND DisplayEnable \<noteq> 0" and n: "1 \<le> unat n"
    and one: "unat (effective_cycles s) + unat n
              < unat (budget (mode s))
                + unat (budget (fst (advance_ml (mode s) (effective_line s))))"
    and at: "unat (effective_cycles s) + unat n < unat (budget (mode s))
             \<or> unat (budget (mode s)) \<le> unat (effective_cycles s) + 1
             \<or> settled s"
  shows "repeat_step ct (unat n) s = step ct n s
         \<and> (step ct n s = None \<longrightarrow>
              mode s = DrawScanline \<and> budget (mode s) \<le> effective_cycles s + n)"
proof -
  have eq: "repeat_step ct (unat n) s = step ct n s"
  proof (cases "unat (effective_cycles s) + unat n < unat (budget (mode s))")
    case True
    then show ?thesis by (rule repeat_no_transition [OF en n])
  next
    case False
    note nf = False
    show ?thesis
    proof (cases "unat (budget (mode s)) \<le> unat (effective_cycles s) + 1")
      case True
      have "80 \<le> unat (budget (mode s))" by (cases "mode s") simp_all
      with True have npd: "\<not> previously_disabled s"
        by (auto simp: effective_cycles_def)
      from n obtain k where k: "unat n = Suc k" by (cases "unat n") simp_all
      from True one npd show ?thesis
        unfolding k [symmetric]
        by (intro transition_then_idle [OF en npd k, unfolded k [symmetric]])
           (simp_all add: effective_cycles_def effective_line_def k)
    next
      case False
      with nf at have st: "settled s" by simp
      then have npd: "\<not> previously_disabled s" by (simp add: settled_def)
      from False nf one npd show ?thesis
        by (intro repeat_settled_transition [OF st n])
           (simp_all add: effective_cycles_def effective_line_def)
    qed
  qed
  moreover have "step ct n s = None \<longrightarrow>
      mode s = DrawScanline \<and> budget (mode s) \<le> effective_cycles s + n"
    using step_None [of ct n s] by blast
  ultimately show ?thesis by (rule conjI)
qed

text \<open>
  Two instances. In a settled HBlank of line 0 with 200 cycles accumulated, 10 cycles
  end the HBlank after the fourth and leave 6 cycles in the OAM search of line 1, given
  one by one or at once. In the first three cycles after the display came back on, the
  stale count of 100 cycles is reset before the new cycles are added, and no transition
  falls due.
\<close>

theorem single_cycle_steps_up_to_one_transition_witness:
  "lcd_control late_hblank AND DisplayEnable \<noteq> 0 \<and> 1 \<le> unat (10 :: u32)
   \<and> unat (effective_cycles late_hblank) + unat (10 :: u32)
       < unat (budget (mode late_hblank))
         + unat (budget (fst (advance_ml (mode late_hblank) (effective_line late_hblank))))
   \<and> settled late_hblank
   \<and> unat (budget (mode late_hblank)) \<le> unat (effective_cycles late_hblank) + unat (10 :: u32)
   \<and> repeat_step grey (unat (10 :: u32)) late_hblank = step grey 10 late_hblank
   \<and> (\<exists>s' reqs. step grey 10 late_hblank = Some (s', reqs)
         \<and> mode s' = OAMSearch \<and> line_y s' = 1 \<and> cycles s' = 6)
   \<and> lcd_control reenabled AND DisplayEnable \<noteq> 0 \<and> 1 \<le> unat (3 :: u32)
   \<and> unat (effective_cycles reenabled) + unat (3 :: u32) < unat (budget (mode reenabled))
   \<and> repeat_step grey (unat (3 :: u32)) reenabled = step grey 3 reenabled
   \<and> (\<exists>s' reqs. step grey 3 reenabled = Some (s', reqs) \<and> cycles s' = 3 \<and> mode s' = HBlank)"
proof -
  have l: "status late_hblank = 4" "lcd_control late_hblank = 0x91" "mode late_hblank = HBlank"
    "cycles late_hblank = 200" "line_y late_hblank = 0" "previously_disabled late_hblank = False"
    "line_y_compare late_hblank = 0" "window_y late_hblank = 0"
    "window_draw_flag late_hblank = True"
    by (simp_all add: late_hblank_def post_boot_simps)
       (simp add: post_boot_def set_post_boot_state_def reset_def power_on_def)
  have h: "lcd_control late_hblank AND DisplayEnable \<noteq> 0" "1 \<le> unat (10 :: u32)"
    "unat (effective_cycles late_hblank) + unat (10 :: u32)
       < unat (budget (mode late_hblank))
         + unat (budget (fst (advance_ml (mode late_hblank) (effective_line late_hblank))))"
    "settled late_hblank"
    "unat (budget (mode late_hblank)) \<le> unat (effective_cycles late_hblank) + unat (10 :: u32)"
    by (simp_all add: l effective_cycles_def effective_line_def settled_def leave_status_def
        flag_defs)
  have e: "\<exists>s' reqs. step grey 10 late_hblank = Some (s', reqs)
         \<and> mode s' = OAMSearch \<and> line_y s' = 1 \<and> cycles s' = 6"
    by (simp add: step_def switch_mode_def check_ly_lyc_def set_stat_def stat_any_def
        check_stat_def flag_defs l Let_def)
  have g: "lcd_control reenabled AND DisplayEnable \<noteq> 0" "1 \<le> unat (3 :: u32)"
    "unat (effective_cycles reenabled) + unat (3 :: u32) < unat (budget (mode reenabled))"
    by (simp_all add: reenabled_def post_boot_simps DisplayEnable_def effective_cycles_def)
  have g': "unat (effective_cycles reenabled) + unat (3 :: u32)
       < unat (budget (mode reenabled))
         + unat (budget (fst (advance_ml (mode reenabled) (effective_line reenabled))))"
    using g(3) by simp
  have f: "\<exists>s' reqs. step grey 3 reenabled = Some (s', reqs) \<and> cycles s' = 3 \<and> mode s' = HBlank"
    by (simp add: reenabled_def reset_def eval_step)
  from single_cycle_steps_up_to_one_transition [OF h(1-3), of grey] h(4)
  have 1: "repeat_step grey (unat (10 :: u32)) late_hblank = step grey 10 late_hblank" by simp
  from single_cycle_steps_up_to_one_transition [OF g(1,2) g', of grey] g(3)
  have 2: "repeat_step grey (unat (3 :: u32)) reenabled = step grey 3 reenabled" by simp
  from h e g f 1 2 show ?thesis by (intro conjI)
qed

text \<open>
  The claim as stated fails in the state \<^verbatim>\<open>set_post_boot_state\<close> leaves after a hard
  reset, which is in HBlank with 420 cycles accumulated. One call with 2 cycles ends
  the HBlank and stays in OAM search with 218 cycles. Two calls with 1 cycle each end
  the HBlank with 217 cycles and then, at 218, end the OAM search as well.
\<close>

theorem single_cycle_steps_counterexample:
  "lcd_control post_boot AND DisplayEnable \<noteq> 0
   \<and> (\<exists>s1 q1. repeat_step grey (unat (2 :: u32)) post_boot = Some (s1, q1)
         \<and> mode s1 = DrawScanline \<and> cycles s1 = 138)
   \<and> (\<exists>s2 q2. step grey 2 post_boot = Some (s2, q2) \<and> mode s2 = OAMSearch \<and> cycles s2 = 218)
   \<and> repeat_step grey (unat (2 :: u32)) post_boot \<noteq> step grey 2 post_boot"
proof -
  have h: "lcd_control post_boot AND DisplayEnable \<noteq> 0"
    by (simp add: post_boot_simps DisplayEnable_def)
  have u: "unat (2 :: u32) = Suc (Suc 0)" by simp
  have r: "\<exists>s1 q1. repeat_step grey (unat (2 :: u32)) post_boot = Some (s1, q1)
         \<and> mode s1 = DrawScanline \<and> cycles s1 = 138"
    unfolding u by (simp add: eval_step scan_oam_eval)
  have s: "\<exists>s2 q2. step grey 2 post_boot = Some (s2, q2) \<and> mode s2 = OAMSearch \<and> cycles s2 = 218"
    by (simp add: eval_step)
  from r s have "repeat_step grey (unat (2 :: u32)) post_boot \<noteq> step grey 2 post_boot"
    by auto
  with h r s show ?thesis by (intro conjI)
qed

subsection \<open>C2: the mode cycle and the line counter\<close>

text \<open>
  Claim C2, as amended. Having the display enabled is not enough: the first call after
  the display came back on resets the line counter and the cycle count to 0 before it
  does anything else, whatever line the PPU was on, so the line can jump to 0 without an
  arrow of the cycle. What holds is this. Take a start with the display enabled that is
  consistent: either the soft reset is pending in HBlank, or the line fits the mode (144
  to 153 in VBlank, 0 to 143 otherwise); a hard reset leaves such a state, and
  \<^verbatim>\<open>step\<close> keeps it so. Read the line and the cycle count of a state as 0 if the soft
  reset is pending. Then in every sequence of calls of \<^verbatim>\<open>step\<close>, a call that uses up the budget
  of the mode it starts in (204 cycles in HBlank, 456 in VBlank, 80 in OAM search, 172
  in drawing) follows exactly one arrow of the cycle: OAM search to drawing, drawing to
  HBlank, HBlank to OAM search of the next line from lines 0 to 142, HBlank to VBlank
  from line 143 to 144, VBlank to VBlank of the next line from lines 144 to 152, and
  VBlank on line 153 to OAM search on line 0. Every other call keeps the mode and the
  line. After every call the line is in 0 to 153 and fits the mode, and no soft reset
  is pending; so the line only ever steps by one or, from 153, returns to 0, once in a
  frame of 154 lines.
\<close>

theorem mode_cycle_from_consistent_start:
  assumes "lcd_control s AND DisplayEnable \<noteq> 0"
    and "if previously_disabled s then mode s = HBlank else line_mode_ok s"
    and "trace ct ns s = Some tr"
  shows "list_all2 (\<lambda>n (pre, post, reqs).
            line_y post \<le> 153 \<and> line_mode_ok post \<and> \<not> previously_disabled post
            \<and> (if budget (mode pre) \<le> effective_cycles pre + n
                then cycle_arrow (mode pre, effective_line pre) (mode post, line_y post)
                else (mode post, line_y post) = (mode pre, effective_line pre))) ns tr"
proof (rule trace_all2 [where I = consistent_start, OF _ _ assms(3)])
  from assms(1,2) show "consistent_start s" by (simp add: consistent_start_def)
next
  fix n s s' q
  assume c: "consistent_start s" and st: "step ct n s = Some (s', q)"
  note a = step_cycle [OF c st]
  from a(1) have r: "line_mode_ok s'" "\<not> previously_disabled s'" by (simp_all add: running_def)
  then have "line_y s' \<le> 153"
    by (auto simp: line_mode_ok_def split: if_splits) unat_arith
  with a r running_consistent [OF a(1)] show "consistent_start s' \<and>
     (case (s, s', q) of (pre, post, reqs) \<Rightarrow>
        line_y post \<le> 153 \<and> line_mode_ok post \<and> \<not> previously_disabled post
        \<and> (if budget (mode pre) \<le> effective_cycles pre + n
            then cycle_arrow (mode pre, effective_line pre) (mode post, line_y post)
            else (mode post, line_y post) = (mode pre, effective_line pre)))"
    by simp
qed

text \<open>
  Five instances, one call each: the last cycle of drawing line 5 leads to the HBlank of
  line 5; the last cycle of line 153 leads to the OAM search of line 0; the last cycle
  of the HBlank of line 143 leads to VBlank on line 144; the first call after the
  display came back on, on line 77, restarts in the HBlank of line 0 and stays there;
  and after boot, 2 cycles end the HBlank of line 0 and lead to the OAM search of line 1.
\<close>

theorem mode_cycle_from_consistent_start_witness:
  "lcd_control drawing_line AND DisplayEnable \<noteq> 0 \<and> \<not> previously_disabled drawing_line
   \<and> line_mode_ok drawing_line
   \<and> (\<exists>s' q. trace grey [1] drawing_line = Some [(drawing_line, s', q)]
         \<and> (mode drawing_line, line_y drawing_line) = (DrawScanline, 5)
         \<and> (mode s', line_y s') = (HBlank, 5))
   \<and> lcd_control last_vblank_line AND DisplayEnable \<noteq> 0
   \<and> \<not> previously_disabled last_vblank_line \<and> line_mode_ok last_vblank_line
   \<and> (\<exists>s' q. trace grey [1] last_vblank_line = Some [(last_vblank_line, s', q)]
         \<and> (mode last_vblank_line, line_y last_vblank_line) = (VBlank, 153)
         \<and> (mode s', line_y s') = (OAMSearch, 0))
   \<and> lcd_control last_visible_line AND DisplayEnable \<noteq> 0
   \<and> \<not> previously_disabled last_visible_line \<and> line_mode_ok last_visible_line
   \<and> (\<exists>s' q. trace grey [1] last_visible_line = Some [(last_visible_line, s', q)]
         \<and> (mode last_visible_line, line_y last_visible_line) = (HBlank, 143)
         \<and> (mode s', line_y s') = (VBlank, 144))
   \<and> lcd_control reenabled AND DisplayEnable \<noteq> 0
   \<and> previously_disabled reenabled \<and> mode reenabled = HBlank
   \<and> (\<exists>s' q. trace grey [3] reenabled = Some [(reenabled, s', q)]
         \<and> (mode s', line_y s') = (HBlank, 0) \<and> \<not> previously_disabled s')
   \<and> lcd_control post_boot AND DisplayEnable \<noteq> 0
   \<and> \<not> previously_disabled post_boot \<and> line_mode_ok post_boot
   \<and> (\<exists>s' q. trace grey [2] post_boot = Some [(post_boot, s', q)]
         \<and> (mode post_boot, line_y post_boot) = (HBlank, 0)
         \<and> (mode s', line_y s') = (OAMSearch, 1))"
proof -
  have d: "lcd_control drawing_line = 0x91" "mode drawing_line = DrawScanline"
    "line_y drawing_line = 5" "cycles drawing_line = 171" "\<not> previously_disabled drawing_line"
    by (simp_all add: drawing_line_def post_boot_simps)
  have dh: "lcd_control drawing_line AND DisplayEnable \<noteq> 0" "line_mode_ok drawing_line"
    by (simp_all add: d flag_defs line_mode_ok_def)
  have "\<exists>s' q. step grey 1 drawing_line = Some (s', q)"
    by (rule step_total_plain) (simp_all add: d flag_defs effective_line_def)
  then obtain s1 q1 where "step grey 1 drawing_line = Some (s1, q1)" by (elim exE)
  then have t1: "trace grey [1] drawing_line = Some [(drawing_line, s1, q1)]" by simp
  from mode_cycle_from_consistent_start [OF dh(1) _ t1] d dh
  have r1: "(mode s1, line_y s1) = (HBlank, 5)"
    by (simp add: effective_cycles_def effective_line_def)
  have v: "lcd_control last_vblank_line = 0x91" "mode last_vblank_line = VBlank"
    "line_y last_vblank_line = 153" "cycles last_vblank_line = 455"
    "\<not> previously_disabled last_vblank_line"
    by (simp_all add: last_vblank_line_def post_boot_simps)
  have vh: "lcd_control last_vblank_line AND DisplayEnable \<noteq> 0" "line_mode_ok last_vblank_line"
    by (simp_all add: v flag_defs line_mode_ok_def)
  have "\<exists>s' q. step grey 1 last_vblank_line = Some (s', q)"
    by (simp add: last_vblank_line_def eval_step)
  then obtain s2 q2 where "step grey 1 last_vblank_line = Some (s2, q2)" by (elim exE)
  then have t2: "trace grey [1] last_vblank_line = Some [(last_vblank_line, s2, q2)]" by simp
  from mode_cycle_from_consistent_start [OF vh(1) _ t2] v vh
  have r2: "(mode s2, line_y s2) = (OAMSearch, 0)"
    by (simp add: effective_cycles_def effective_line_def)
  have w: "lcd_control last_visible_line = 0x91" "mode last_visible_line = HBlank"
    "line_y last_visible_line = 143" "cycles last_visible_line = 203"
    "\<not> previously_disabled last_visible_line"
    by (simp_all add: last_visible_line_def post_boot_simps)
  have wh: "lcd_control last_visible_line AND DisplayEnable \<noteq> 0" "line_mode_ok last_visible_line"
    by (simp_all add: w flag_defs line_mode_ok_def)
  have "\<exists>s' q. step grey 1 last_visible_line = Some (s', q)"
    by (simp add: last_visible_line_def eval_step)
  then obtain s3 q3 where "step grey 1 last_visible_line = Some (s3, q3)" by (elim exE)
  then have t3: "trace grey [1] last_visible_line = Some [(last_visible_line, s3, q3)]" by simp
  from mode_cycle_from_consistent_start [OF wh(1) _ t3] w wh
  have r3: "(mode s3, line_y s3) = (VBlank, 144)"
    by (simp add: effective_cycles_def effective_line_def)
  have x: "lcd_control reenabled = 0x91" "mode reenabled = HBlank" "previously_disabled reenabled"
    by (simp_all add: reenabled_def post_boot_simps)
  have xh: "lcd_control reenabled AND DisplayEnable \<noteq> 0"
    by (simp add: x flag_defs)
  have "\<exists>s' q. step grey 3 reenabled = Some (s', q)"
    by (simp add: reenabled_def reset_def eval_step)
  then obtain s4 q4 where "step grey 3 reenabled = Some (s4, q4)" by (elim exE)
  then have t4: "trace grey [3] reenabled = Some [(reenabled, s4, q4)]" by simp
  from mode_cycle_from_consistent_start [OF xh _ t4] x
  have r4: "(mode s4, line_y s4) = (HBlank, 0) \<and> \<not> previously_disabled s4"
    by (simp add: effective_cycles_def effective_line_def)
  from d dh t1 r1 have a: "\<exists>s' q. trace grey [1] drawing_line = Some [(drawing_line, s', q)]
         \<and> (mode drawing_line, line_y drawing_line) = (DrawScanline, 5)
         \<and> (mode s', line_y s') = (HBlank, 5)"
    by (intro exI [of _ s1] exI [of _ q1] conjI) simp_all
  from v t2 r2 have b: "\<exists>s' q. trace grey [1] last_vblank_line = Some [(last_vblank_line, s', q)]
         \<and> (mode last_vblank_line, line_y last_vblank_line) = (VBlank, 153)
         \<and> (mode s', line_y s') = (OAMSearch, 0)"
    by (intro exI [of _ s2] exI [of _ q2] conjI) simp_all
  from w t3 r3 have c: "\<exists>s' q. trace grey [1] last_visible_line = Some [(last_visible_line, s', q)]
         \<and> (mode last_visible_line, line_y last_visible_line) = (HBlank, 143)
         \<and> (mode s', line_y s') = (VBlank, 144)"
    by (intro exI [of _ s3] exI [of _ q3] conjI) simp_all
  from t4 r4 have e: "\<exists>s' q. trace grey [3] reenabled = Some [(reenabled, s', q)]
         \<and> (mode s', line_y s') = (HBlank, 0) \<and> \<not> previously_disabled s'"
    by (intro exI [of _ s4] exI [of _ q4] conjI) simp_all
  have ph: "lcd_control post_boot AND DisplayEnable \<noteq> 0" "\<not> previously_disabled post_boot"
    "line_mode_ok post_boot"
    by (simp_all add: post_boot_simps flag_defs line_mode_ok_def)
  have "\<exists>s' q. step grey 2 post_boot = Some (s', q)"
    by (simp add: eval_step)
  then obtain s5 q5 where "step grey 2 post_boot = Some (s5, q5)" by (elim exE)
  then have t5: "trace grey [2] post_boot = Some [(post_boot, s5, q5)]" by simp
  from mode_cycle_from_consistent_start [OF ph(1) _ t5] ph
  have r5: "(mode s5, line_y s5) = (OAMSearch, 1)"
    by (simp add: effective_cycles_def effective_line_def post_boot_simps)
  from t5 r5 have f: "\<exists>s' q. trace grey [2] post_boot = Some [(post_boot, s', q)]
         \<and> (mode post_boot, line_y post_boot) = (HBlank, 0)
         \<and> (mode s', line_y s') = (OAMSearch, 1)"
    by (intro exI [of _ s5] exI [of _ q5] conjI) (simp_all add: post_boot_simps)
  from d(5) dh a v(5) vh b w(5) wh c xh x(2,3) e ph f show ?thesis by (intro conjI)
qed

text \<open>
  The claim as stated fails in the first call after the display came back on in the
  middle of a frame: the display is enabled, the PPU is in HBlank on line 77, and one
  call with 3 cycles leaves it in HBlank on line 0, which is neither the same line nor
  an arrow of the cycle.
\<close>

theorem mode_cycle_counterexample:
  "lcd_control reenabled AND DisplayEnable \<noteq> 0
   \<and> (mode reenabled, line_y reenabled) = (HBlank, 77)
   \<and> (\<exists>s' q. step grey 3 reenabled = Some (s', q) \<and> (mode s', line_y s') = (HBlank, 0)
         \<and> (mode s', line_y s') \<noteq> (mode reenabled, line_y reenabled)
         \<and> \<not> cycle_arrow (mode reenabled, line_y reenabled) (mode s', line_y s'))"
proof -
  have x: "mode reenabled = HBlank" "line_y reenabled = 77"
    "lcd_control reenabled AND DisplayEnable \<noteq> 0"
    by (simp_all add: reenabled_def post_boot_simps flag_defs)
  have "\<exists>s' q. step grey 3 reenabled = Some (s', q) \<and> mode s' = HBlank \<and> line_y s' = 0"
    by (simp add: reenabled_def reset_def eval_step)
  then obtain s' q where st: "step grey 3 reenabled = Some (s', q)"
    and m: "mode s' = HBlank" "line_y s' = 0"
    by (elim exE conjE)
  have "\<exists>s' q. step grey 3 reenabled = Some (s', q) \<and> (mode s', line_y s') = (HBlank, 0)
         \<and> (mode s', line_y s') \<noteq> (mode reenabled, line_y reenabled)
         \<and> \<not> cycle_arrow (mode reenabled, line_y reenabled) (mode s', line_y s')"
    by (intro exI [of _ s'] exI [of _ q] conjI) (simp_all add: st m x)
  with x show ?thesis by simp
qed

subsection \<open>C3: the VBlank interrupt request\<close>

text \<open>
  Claim C3. With the display enabled, a call of \<^verbatim>\<open>step\<close> requests the VBlank interrupt
  exactly once if it takes the PPU from HBlank to VBlank, and then the line counter has
  reached 144; any other call does not request it. This holds for every value of the
  status register, so neither the STAT enable bits nor STAT blocking play a part. Over a
  sequence of calls, the requests and the wraparounds from VBlank to OAM search
  alternate: their numbers are equal for a sequence that starts and ends outside
  VBlank, which is one request for each frame.
\<close>

theorem vblank_request_once_per_frame:
  assumes "lcd_control s AND DisplayEnable \<noteq> 0" and "trace ct ns s = Some tr"
  shows "list_all (\<lambda>(pre, post, reqs).
            if mode pre = HBlank \<and> mode post = VBlank
            then line_y post = 144 \<and> count_list reqs INT_VBLANK_BIT = 1
            else count_list reqs INT_VBLANK_BIT = 0) tr
    \<and> count_list (concat (map (\<lambda>(pre, post, reqs). reqs) tr)) INT_VBLANK_BIT
         + (if mode s = VBlank then 1 else 0)
       = length (filter (\<lambda>(pre, post, reqs). mode pre = VBlank \<and> mode post = OAMSearch) tr)
         + (if mode (final_state s tr) = VBlank then 1 else 0)"
proof
  show "list_all (\<lambda>(pre, post, reqs).
            if mode pre = HBlank \<and> mode post = VBlank
            then line_y post = 144 \<and> count_list reqs INT_VBLANK_BIT = 1
            else count_list reqs INT_VBLANK_BIT = 0) tr"
  proof (rule trace_all [where I = "\<lambda>s. lcd_control s AND DisplayEnable \<noteq> 0", OF _ assms])
    fix n s s' q
    assume en: "lcd_control s AND DisplayEnable \<noteq> 0" and st: "step ct n s = Some (s', q)"
    from step_vblank(1) [OF en st] step_keeps_enabled [OF st] en
    show "lcd_control s' AND DisplayEnable \<noteq> 0 \<and>
       (case (s, s', q) of (pre, post, reqs) \<Rightarrow>
          if mode pre = HBlank \<and> mode post = VBlank
          then line_y post = 144 \<and> count_list reqs INT_VBLANK_BIT = 1
          else count_list reqs INT_VBLANK_BIT = 0)"
      by simp
  qed
  show "count_list (concat (map (\<lambda>(pre, post, reqs). reqs) tr)) INT_VBLANK_BIT
         + (if mode s = VBlank then 1 else 0)
       = length (filter (\<lambda>(pre, post, reqs). mode pre = VBlank \<and> mode post = OAMSearch) tr)
         + (if mode (final_state s tr) = VBlank then 1 else 0)"
    by (rule trace_vblank_balance [OF assms])
qed

text \<open>
  An instance: the last cycle of the HBlank of line 143, with the HBlank source of STAT
  enabled and therefore asserted, still sends the VBlank request.
\<close>

theorem vblank_request_once_per_frame_witness:
  "lcd_control last_visible_line AND DisplayEnable \<noteq> 0 \<and> stat_any last_visible_line
   \<and> (\<exists>tr. trace grey [1] last_visible_line = Some tr
         \<and> map (\<lambda>(pre, post, reqs). (mode pre, mode post, line_y post)) tr
             = [(HBlank, VBlank, 144)]
         \<and> count_list (concat (map (\<lambda>(pre, post, reqs). reqs) tr)) INT_VBLANK_BIT = 1)"
proof -
  have h: "lcd_control last_visible_line AND DisplayEnable \<noteq> 0"
    by (simp add: last_visible_line_def post_boot_simps DisplayEnable_def)
  have a: "stat_any last_visible_line"
    by (simp add: last_visible_line_def post_boot_simps stat_any_def check_stat_def flag_defs)
  have "\<exists>tr. trace grey [1] last_visible_line = Some tr
      \<and> map (\<lambda>(pre, post, reqs). (mode pre, mode post, line_y post)) tr
             = [(HBlank, VBlank, 144)]"
    by (simp add: last_visible_line_def eval_step)
  then obtain tr where tr: "trace grey [1] last_visible_line = Some tr"
    and m: "map (\<lambda>(pre, post, reqs). (mode pre, mode post, line_y post)) tr
             = [(HBlank, VBlank, 144)]"
    by (elim exE conjE) (rule that)
  have w: "mode last_visible_line = HBlank"
    by (simp add: last_visible_line_def post_boot_simps)
  from m obtain pre post reqs where e: "tr = [(pre, post, reqs)]"
    and p: "mode pre = HBlank" "mode post = VBlank"
    by auto
  note t = vblank_request_once_per_frame [OF h tr, THEN conjunct2]
  have "count_list (concat (map (\<lambda>(pre, post, reqs). reqs) tr)) INT_VBLANK_BIT = 1"
    using t unfolding e by (simp add: final_state_def w p del: count_list.simps)
  with h a tr m show ?thesis by (intro conjI exI [of _ tr])
qed

subsection \<open>C4: STAT blocking\<close>

text \<open>
  Claim C4. \<^verbatim>\<open>step\<close> evaluates \<^verbatim>\<open>stat_any\<close> once, before the switch, on the status
  register and the mode the call starts with. If an enabled STAT source is asserted
  there (the LY = LYC flag with its enable bit, or the enable bit of the current mode
  among OAM search, VBlank and HBlank), the call requests no LCD-STAT interrupt: not at
  a mode transition and not from the LY = LYC comparator.
\<close>

theorem stat_blocking:
  assumes src: "(check_stat EnableLYCandLYInt s \<and> check_stat LYCandLYCompareType s)
     \<or> (check_stat EnableOAMInt s \<and> mode s = OAMSearch)
     \<or> (check_stat EnableVBlankInt s \<and> mode s = VBlank)
     \<or> (check_stat EnableHBlankInt s \<and> mode s = HBlank)"
    and run: "step ct n s = Some (s', reqs)"
  shows "INT_LCD_STAT_BIT \<notin> set reqs"
proof (cases "lcd_control s AND DisplayEnable = 0")
  case True
  with run show ?thesis by (simp add: step_disabled)
next
  case False
  from src have any: "stat_any s" by (simp add: stat_any_iff)
  from run obtain s3 q where sw: "switch_mode ct False (enter n s) = Some (s3, q)"
    and r: "reqs = q @ snd (leave False s3)"
    by (auto simp: step_enabled [OF False] any split: option.splits)
  from switch_mode_blocked [OF sw] r show ?thesis by (simp add: leave_blocked)
qed

text \<open>
  An instance: after boot, with the HBlank and OAM sources enabled, the PPU is in HBlank,
  so a source is asserted; two more cycles end the HBlank period, and the transition to
  OAM search requests nothing.
\<close>

theorem stat_blocking_witness:
  "check_stat EnableHBlankInt (post_boot\<lparr>status := 0x28\<rparr>)
   \<and> mode (post_boot\<lparr>status := 0x28\<rparr>) = HBlank
   \<and> (\<exists>s' reqs. step grey 2 (post_boot\<lparr>status := 0x28\<rparr>) = Some (s', reqs)
         \<and> mode s' = OAMSearch \<and> INT_LCD_STAT_BIT \<notin> set reqs)"
proof -
  let ?w = "post_boot\<lparr>status := 0x28\<rparr>"
  have h: "check_stat EnableHBlankInt ?w" "mode ?w = HBlank"
    by (simp_all add: check_stat_def flag_defs post_boot_simps)
  obtain s' reqs where run: "step grey 2 ?w = Some (s', reqs)" and m: "mode s' = OAMSearch"
    by (simp add: step_def switch_mode_def check_ly_lyc_def set_stat_def stat_any_def
        check_stat_def flag_defs post_boot_simps Let_def)
  from stat_blocking [OF _ run] h have "INT_LCD_STAT_BIT \<notin> set reqs" by blast
  with h run m show ?thesis by blast
qed

subsection \<open>C5: sprite pixels, colour 0 and the priority attribute\<close>



subsection \<open>C6: the OAM scan\<close>

text \<open>
  Claim C6. For every OAM content, line and sprite size, \<^verbatim>\<open>scan_oam\<close> selects the
  entries whose adjusted position \<open>y - 16\<close> satisfies \<open>y - 16 \<le> line < y - 16 + height\<close>,
  in index order, and keeps the first 10 of them; the count it stores is their number,
  at most 10. The stored prefix is sorted by ascending X, and for every X the entries
  with that X stand in it in their OAM order (the sort is stable). The entries of the
  array beyond the count are zero.
\<close>

theorem oam_scan_selection:
  "let height = (if lcd_control s AND SpriteSize \<noteq> 0 then 16 else 8);
       line = int (unat (line_y s));
       eligible = filter (\<lambda>e. int (unat (obj_y e)) - 16 \<le> line
                                 \<and> line < int (unat (obj_y e)) - 16 + height)
                    (map (oam_object (oam s)) [0..<40]);
       chosen = take 10 eligible;
       result = map (objects_on_scanline (scan_oam s)) [0..<num_obj_on_scanline (scan_oam s)]
   in num_obj_on_scanline (scan_oam s) = length chosen
      \<and> num_obj_on_scanline (scan_oam s) \<le> 10
      \<and> sorted (map obj_x result)
      \<and> (\<forall>v. filter (\<lambda>e. obj_x e = v) result = filter (\<lambda>e. obj_x e = v) chosen)
      \<and> (\<forall>k \<ge> num_obj_on_scanline (scan_oam s).
            objects_on_scanline (scan_oam s) k = Object 0 0 0 0)"
proof -
  define height :: int where "height = (if lcd_control s AND SpriteSize \<noteq> 0 then 16 else 8)"
  define chosen where "chosen = take 10 (filter (\<lambda>e. int (unat (obj_y e)) - 16 \<le> int (unat (line_y s))
             \<and> int (unat (line_y s)) < int (unat (obj_y e)) - 16 + height)
          (map (oam_object (oam s)) [0..<40]))"
  have "on_line height (line_y s) = (\<lambda>e. int (unat (obj_y e)) - 16 \<le> int (unat (line_y s))
             \<and> int (unat (line_y s)) < int (unat (obj_y e)) - 16 + height)"
    by (auto simp: fun_eq_iff on_line_def Let_def)
  then have sel: "selected height 0 0 s = chosen"
    by (simp add: selected_def chosen_def)
  have num: "num_obj_on_scanline (scan_oam s) = length chosen"
    using scan_oam_num [of s] by (simp add: height_def [symmetric] sel)
  have res: "map (objects_on_scanline (scan_oam s)) [0..<num_obj_on_scanline (scan_oam s)]
      = sort_key obj_x chosen"
    using scan_oam_result [of s] by (simp add: height_def [symmetric] sel)
  have le: "length chosen \<le> 10" by (simp add: chosen_def)
  have rest: "\<forall>k \<ge> num_obj_on_scanline (scan_oam s).
      objects_on_scanline (scan_oam s) k = Object 0 0 0 0"
    by (simp add: scan_oam_closed Let_def)
  show ?thesis
    unfolding Let_def height_def [symmetric] chosen_def [symmetric] res
    using num le rest by (simp add: sort_key_stable)
qed

text \<open>
  An instance: with all 40 objects on the line, the scan keeps the first 10 in OAM order,
  those with X positions 50 down to 41, and sorts them; the object at X = 40, eleventh
  in OAM, is dropped.
\<close>

theorem oam_scan_selection_witness:
  "num_obj_on_scanline (scan_oam crowded_line) = 10
   \<and> sorted (map obj_x (map (objects_on_scanline (scan_oam crowded_line)) [0..<10]))
   \<and> filter (\<lambda>e. obj_x e = 41)
         (map (objects_on_scanline (scan_oam crowded_line)) [0..<10]) = [Object 16 41 0 0]
   \<and> filter (\<lambda>e. obj_x e = 40)
         (map (objects_on_scanline (scan_oam crowded_line)) [0..<10]) = []"
proof -
  note t = oam_scan_selection [of crowded_line, unfolded Let_def crowded_chosen]
  from t have n: "num_obj_on_scanline (scan_oam crowded_line) = 10" by simp
  from t have s: "sorted (map obj_x (map (objects_on_scanline (scan_oam crowded_line))
      [0..<num_obj_on_scanline (scan_oam crowded_line)]))" by blast
  from t have f: "filter (\<lambda>e. obj_x e = v)
      (map (objects_on_scanline (scan_oam crowded_line))
         [0..<num_obj_on_scanline (scan_oam crowded_line)])
    = filter (\<lambda>e. obj_x e = v)
        [Object 16 50 0 0, Object 16 49 0 0, Object 16 48 0 0, Object 16 47 0 0,
         Object 16 46 0 0, Object 16 45 0 0, Object 16 44 0 0, Object 16 43 0 0,
         Object 16 42 0 0, Object 16 41 0 0]" for v by blast
  from s f [of 41] f [of 40] show ?thesis unfolding n by (simp add: n)
qed

subsection \<open>C7: the completed framebuffer\<close>

text \<open>
  Claim C7. A call of \<^verbatim>\<open>step\<close> changes the completed framebuffer only when it makes
  the transition from VBlank to OAM search, the wraparound of the line counter to 0; it
  then holds a copy of the whole working framebuffer. That transition starts from a line
  of at least 153, which by the invariant of C2 is line 153, so it happens once in a
  frame of 154 lines. Every other call leaves the completed framebuffer as it was.
\<close>

theorem completed_framebuffer_commit:
  assumes "step ct n s = Some (s', reqs)"
  shows "if mode s = VBlank \<and> mode s' = OAMSearch
         then framebuffer_complete s' = framebuffer s \<and> line_y s' = 0
              \<and> 153 \<le> line_y s \<and> \<not> previously_disabled s
         else framebuffer_complete s' = framebuffer_complete s"
proof (cases "lcd_control s AND DisplayEnable = 0")
  case True
  with assms show ?thesis by (auto simp: step_disabled)
next
  case False
  note sm = step_summary [OF False assms]
  show ?thesis
  proof (cases "mode s = VBlank")
    case nv: False
    with sm(5) show ?thesis by simp
  next
    case v: True
    show ?thesis
    proof (cases "due (enter n s) \<and> line_y (enter n s) + 1 > 153")
      case False
      with sm(1,5) v show ?thesis by (auto split: if_splits)
    next
      case True
      then have w: "line_y (enter n s) + 1 > 153" by simp
      have "\<not> previously_disabled s"
      proof
        assume "previously_disabled s"
        with w show False by (simp add: enter_fields)
      qed
      with w have l: "line_y s + 1 > 153" by (simp add: enter_fields)
      have "153 \<le> line_y s"
      proof (rule ccontr)
        assume "\<not> 153 \<le> line_y s"
        then have "unat (line_y s) < 153" by (simp add: word_le_nat_alt)
        then have "unat (line_y s + 1) \<le> 153" by (simp add: unat_word_ariths)
        with l show False by (simp add: word_less_nat_alt)
      qed
      with sm(1,5) v True \<open>\<not> previously_disabled s\<close> show ?thesis by simp
    qed
  qed
qed

text \<open>
  Instances: the last cycle of line 153 commits the working framebuffer; the call that
  ends the first HBlank after boot does not touch the completed framebuffer.
\<close>

theorem completed_framebuffer_commit_witness:
  "mode last_vblank_line = VBlank
   \<and> (\<exists>s' reqs. step grey 1 last_vblank_line = Some (s', reqs) \<and> mode s' = OAMSearch
         \<and> framebuffer_complete s' = framebuffer last_vblank_line \<and> line_y s' = 0)
   \<and> (\<exists>s' reqs. step grey 2 post_boot = Some (s', reqs) \<and> mode s' = OAMSearch
         \<and> framebuffer_complete s' = framebuffer_complete post_boot)"
proof -
  have v: "mode last_vblank_line = VBlank" by (simp add: last_vblank_line_def)
  obtain s1 q1 where r1: "step grey 1 last_vblank_line = Some (s1, q1)"
    and m1: "mode s1 = OAMSearch"
    by (simp add: last_vblank_line_def eval_step)
  obtain s2 q2 where r2: "step grey 2 post_boot = Some (s2, q2)"
    and m2: "mode s2 = OAMSearch"
    by (simp add: eval_step)
  from completed_framebuffer_commit [OF r1] v m1
  have "framebuffer_complete s1 = framebuffer last_vblank_line \<and> line_y s1 = 0" by simp
  moreover from completed_framebuffer_commit [OF r2] m2
  have "framebuffer_complete s2 = framebuffer_complete post_boot"
    by (simp add: post_boot_simps)
  ultimately show ?thesis using v r1 m1 r2 m2 by blast
qed

subsection \<open>C8: the display switched off and on again\<close>

text \<open>
  Claim C8. With the display-enable bit clear, \<^verbatim>\<open>step\<close> sets the mode to HBlank, clears
  the two mode bits of the status register, sets \<^verbatim>\<open>previously_disabled\<close> and returns:
  no request is sent, and the line counter, the cycle counter, the framebuffers and
  every other field keep their values. The first call with the display enabled again
  behaves as a call on the state whose transient counters are reset (cycles, line,
  the window latch and the window's line counter, and with them the count of selected
  objects) and whose flag is cleared; the reset state agrees with the old one on every
  register and memory.
\<close>

theorem display_disable_and_reenable:
  "(lcd_control s AND DisplayEnable = 0 \<longrightarrow>
      step ct n s = Some (s\<lparr>mode := HBlank, status := status s AND NOT 0x03,
                             previously_disabled := True\<rparr>, []))
   \<and> (lcd_control s AND DisplayEnable \<noteq> 0 \<and> previously_disabled s \<longrightarrow>
      step ct n s =
        step ct n (s\<lparr>window_draw_flag := False, num_obj_on_scanline := 0, cycles := 0,
                     line_y := 0, window_line_y := 0, previously_disabled := False\<rparr>))"
proof (intro conjI impI)
  assume "lcd_control s AND DisplayEnable = 0"
  then show "step ct n s = Some (s\<lparr>mode := HBlank, status := status s AND NOT 0x03,
                             previously_disabled := True\<rparr>, [])"
    by (simp add: step_disabled ModeFlag_def)
next
  assume a: "lcd_control s AND DisplayEnable \<noteq> 0 \<and> previously_disabled s"
  let ?r = "s\<lparr>window_draw_flag := False, num_obj_on_scanline := 0, cycles := 0,
               line_y := 0, window_line_y := 0, previously_disabled := False\<rparr>"
  have e: "enter n ?r = enter n s" using a by (simp add: enter_def reset_def Let_def)
  have st: "stat_any ?r = stat_any s" by (simp add: stat_any_def check_stat_def)
  from a have r: "lcd_control ?r AND DisplayEnable \<noteq> 0" by simp
  from a have en: "lcd_control s AND DisplayEnable \<noteq> 0" by simp
  show "step ct n s = step ct n ?r"
    by (simp only: step_enabled [OF r] step_enabled [OF en] e st)
qed

text \<open>
  Instances: a call after a hard reset, where the display is off; and the first call
  after the display came back on line 77 with 100 cycles accumulated, which restarts at
  line 0 with the 3 cycles of the call.
\<close>

theorem display_disable_and_reenable_witness:
  "lcd_control power_on AND DisplayEnable = 0
   \<and> step grey 5 power_on = Some (power_on\<lparr>previously_disabled := True\<rparr>, [])
   \<and> lcd_control reenabled AND DisplayEnable \<noteq> 0 \<and> previously_disabled reenabled
   \<and> (\<exists>s' reqs. step grey 3 reenabled = Some (s', reqs) \<and> cycles s' = 3 \<and> line_y s' = 0
         \<and> mode s' = HBlank \<and> \<not> previously_disabled s' \<and> lcd_control s' = 0x91)"
proof -
  have d: "lcd_control power_on AND DisplayEnable = 0"
    by (simp add: power_on_def)
  have r: "lcd_control reenabled AND DisplayEnable \<noteq> 0 \<and> previously_disabled reenabled"
    by (simp add: reenabled_def post_boot_simps DisplayEnable_def)
  note t = display_disable_and_reenable [of power_on grey 5]
  from t d have 1: "step grey 5 power_on = Some (power_on\<lparr>previously_disabled := True\<rparr>, [])"
    by (simp add: power_on_def)
  have "\<exists>s' reqs. step grey 3 (reenabled\<lparr>window_draw_flag := False, num_obj_on_scanline := 0,
         cycles := 0, line_y := 0, window_line_y := 0, previously_disabled := False\<rparr>)
       = Some (s', reqs) \<and> cycles s' = 3 \<and> line_y s' = 0 \<and> mode s' = HBlank
         \<and> \<not> previously_disabled s' \<and> lcd_control s' = 0x91"
    by (simp add: reenabled_def eval_step)
  with display_disable_and_reenable [of reenabled grey 3] r
  have 2: "\<exists>s' reqs. step grey 3 reenabled = Some (s', reqs) \<and> cycles s' = 3 \<and> line_y s' = 0
         \<and> mode s' = HBlank \<and> \<not> previously_disabled s' \<and> lcd_control s' = 0x91"
    by simp
  from d 1 r 2 show ?thesis by blast
qed

subsection \<open>C9: the background pass with the background disabled\<close>

text \<open>
  Claim C9. Let the background be disabled, by the background-enable bit of the control
  register or by the render-layer mask. The background pass has a defined result on
  every screen line, 0 to 143; on a line beyond them it would write outside the shadow
  table, and \<^verbatim>\<open>step\<close> never draws such a line. Whenever the pass has a result, each of the
  160 pixels of the line has the colour the background palette maps index 0 to, and
  the background shadow table holds 0 for each of them.
\<close>

theorem disabled_background_paints_index_0:
  assumes "lcd_control s AND BGEnable = 0 \<or> render_flags s AND Background = 0"
  shows "(unat (line_y s) < 144 \<longrightarrow> (\<exists>s'. render_bg_layer ct s = Some s'))
     \<and> (\<forall>s'. render_bg_layer ct s = Some s' \<longrightarrow>
          (\<forall>i<160. bg_color_table s' (unat (line_y s) * 160 + i) = 0
             \<and> get_pixel (framebuffer s') (unat (line_y s) * 160 + i)
                 = ct (unat (background_palette s AND 3))))"
proof (rule conjI)
  show "unat (line_y s) < 144 \<longrightarrow> (\<exists>s'. render_bg_layer ct s = Some s')"
  proof
    assume "unat (line_y s) < 144"
    from render_bg_layer_painted [OF this, of ct]
    show "\<exists>s'. render_bg_layer ct s = Some s'" by blast
  qed
  show "\<forall>s'. render_bg_layer ct s = Some s' \<longrightarrow>
          (\<forall>i<160. bg_color_table s' (unat (line_y s) * 160 + i) = 0
             \<and> get_pixel (framebuffer s') (unat (line_y s) * 160 + i)
                 = ct (unat (background_palette s AND 3)))"
  proof (intro allI impI)
    fix s' and i :: nat
    assume r: "render_bg_layer ct s = Some s'" and i: "i < 160"
    have ly: "unat (line_y s) < 144"
      using r render_bg_layer_off_screen [of s ct] by (cases "unat (line_y s) < 144") simp_all
    from render_bg_layer_painted [OF ly, of ct] r assms i
    show "bg_color_table s' (unat (line_y s) * 160 + i) = 0
       \<and> get_pixel (framebuffer s') (unat (line_y s) * 160 + i)
           = ct (unat (background_palette s AND 3))"
      by (simp add: bg_disabled_def LCD_WIDTH_def)
  qed
qed

text \<open>
  An instance: on line 5, with the background-enable bit clear and the palette 0xE4,
  which maps index 0 to shade 0, columns 7 and 159 are white and their shadow values
  are 0.
\<close>

theorem disabled_background_paints_index_0_witness:
  "lcd_control background_off AND BGEnable = 0 \<and> unat (line_y background_off) < 144
   \<and> background_palette background_off = 0xE4
   \<and> (\<exists>s'. render_bg_layer grey background_off = Some s'
         \<and> bg_color_table s' (5 * 160 + 7) = 0
         \<and> get_pixel (framebuffer s') (5 * 160 + 7) = (255, 255, 255, 255)
         \<and> bg_color_table s' (5 * 160 + 159) = 0
         \<and> get_pixel (framebuffer s') (5 * 160 + 159) = (255, 255, 255, 255))"
proof -
  have b: "lcd_control background_off = 0x90" "line_y background_off = 5"
    "background_palette background_off = 0xE4"
    by (simp_all add: background_off_def)
  have h: "lcd_control background_off AND BGEnable = 0" "unat (line_y background_off) < 144"
    by (simp_all add: b flag_defs)
  have c: "grey 0 = (255, 255, 255, 255)"
    by (simp add: grey_def)
  note t = disabled_background_paints_index_0 [where s = background_off and ct = grey,
      OF disjI1 [OF h(1)]]
  from t h(2) obtain s' where r: "render_bg_layer grey background_off = Some s'" by blast
  note p = t [THEN conjunct2, rule_format, OF r]
  have "bg_color_table s' (5 * 160 + 7) = 0
      \<and> get_pixel (framebuffer s') (5 * 160 + 7) = (255, 255, 255, 255)"
    using p [of 7] by (simp add: b c)
  moreover have "bg_color_table s' (5 * 160 + 159) = 0
      \<and> get_pixel (framebuffer s') (5 * 160 + 159) = (255, 255, 255, 255)"
    using p [of 159] by (simp add: b c)
  ultimately have "\<exists>s'. render_bg_layer grey background_off = Some s'
         \<and> bg_color_table s' (5 * 160 + 7) = 0
         \<and> get_pixel (framebuffer s') (5 * 160 + 7) = (255, 255, 255, 255)
         \<and> bg_color_table s' (5 * 160 + 159) = 0
         \<and> get_pixel (framebuffer s') (5 * 160 + 159) = (255, 255, 255, 255)"
    using r by (intro exI [of _ s']) simp
  with h b(3) show ?thesis by (intro conjI)
qed

subsection \<open>C10: what a step leaves alone\<close>

text \<open>
  Claim C10. A call of \<^verbatim>\<open>step\<close> that returns never changes VRAM, OAM or a configuration
  register: the control register, the scroll and window positions, the three palettes,
  LYC and the render-layer mask. These are all the fields of the object except the
  mode, the cycle and line counters, the window latch and the window's line counter,
  the disabled flag, the status register, the selected objects with their count, the
  two framebuffers and the background shadow table.
\<close>

theorem step_preserves_configuration:
  assumes "step ct n s = Some (s', reqs)"
  shows "vram s' = vram s \<and> oam s' = oam s \<and> lcd_control s' = lcd_control s
    \<and> screen_scroll_x s' = screen_scroll_x s \<and> screen_scroll_y s' = screen_scroll_y s
    \<and> window_x s' = window_x s \<and> window_y s' = window_y s
    \<and> background_palette s' = background_palette s
    \<and> object_palette_0 s' = object_palette_0 s \<and> object_palette_1 s' = object_palette_1 s
    \<and> line_y_compare s' = line_y_compare s \<and> render_flags s' = render_flags s"
proof (cases "lcd_control s AND DisplayEnable = 0")
  case True
  with assms show ?thesis by (auto simp: step_disabled)
next
  case False
  from step_summary(3) [OF False assms] show ?thesis by (simp add: config_def)
qed

text \<open>An instance: the call that ends the first HBlank after boot.\<close>

theorem step_preserves_configuration_witness:
  "\<exists>s' reqs. step grey 2 post_boot = Some (s', reqs) \<and> mode s' = OAMSearch
     \<and> vram s' = vram post_boot \<and> oam s' = oam post_boot \<and> lcd_control s' = 0x91"
proof -
  obtain s' reqs where run: "step grey 2 post_boot = Some (s', reqs)"
    and m: "mode s' = OAMSearch"
    by (simp add: eval_step)
  from step_preserves_configuration [OF run] m run show ?thesis
    by (simp add: post_boot_simps)
qed

end
